theory Spec2Isabelle
  imports Main "HOL-Library.Word"
begin

unbundle bit_operations_syntax

section \<open>JavaScript values used by lib/index.mjs\<close>

text \<open>
  A JavaScript string is a sequence of UTF-16 code units; a \<^verbatim>\<open>Uint8Array\<close> is a
  sequence of bytes. \<^verbatim>\<open>String.prototype.charCodeAt\<close> returns \<^verbatim>\<open>NaN\<close> beyond the end
  of the string and \<^verbatim>\<open>s[i]\<close> returns \<^verbatim>\<open>undefined\<close> there; both values flow through the
  constructor, so they are part of the model.
\<close>

type_synonym code_unit = nat
type_synonym jsstring = "code_unit list"
type_synonym byte = "8 word"

datatype number = NaN | Number nat

datatype jsval = Undefined | Str jsstring

datatype error = TypeError string | RangeError string

abbreviation str :: "string \<Rightarrow> jsstring" where
  "str s \<equiv> map of_char s"

definition StringCharCodeAt :: "jsstring \<Rightarrow> nat \<Rightarrow> number" where
  "StringCharCodeAt s i = (if i < length s then Number (s ! i) else NaN)"

text \<open>\<^verbatim>\<open>s[i]\<close>: a one-character string, or \<^verbatim>\<open>undefined\<close> out of range.\<close>

definition char_at :: "jsstring \<Rightarrow> nat \<Rightarrow> jsval" where
  "char_at s i = (if i < length s then Str [s ! i] else Undefined)"

text \<open>String concatenation \<^verbatim>\<open>result += v\<close> converts \<^verbatim>\<open>v\<close> with ToString.\<close>

fun ToString :: "jsval \<Rightarrow> jsstring" where
  "ToString Undefined = str ''undefined''"
| "ToString (Str s) = s"

text \<open>The operands of \<^verbatim>\<open>>>\<close>, \<^verbatim>\<open>&\<close> and \<^verbatim>\<open><<\<close> are converted with ToInt32, which sends
  \<^verbatim>\<open>NaN\<close> to 0; character codes are below \<open>2 ^ 16\<close>, so nothing wraps.\<close>

fun ToInt32 :: "number \<Rightarrow> nat" where
  "ToInt32 NaN = 0"
| "ToInt32 (Number n) = n"

text \<open>A store into a \<^verbatim>\<open>Uint8Array\<close> converts with ToUint8: modulo 256, \<^verbatim>\<open>NaN\<close> and
  \<^verbatim>\<open>undefined\<close> to 0.\<close>

fun ToUint8 :: "number \<Rightarrow> byte" where
  "ToUint8 NaN = 0"
| "ToUint8 (Number n) = of_nat n"

text \<open>Relational operators are false as soon as one side is \<^verbatim>\<open>NaN\<close>.\<close>

fun number_less :: "number \<Rightarrow> nat \<Rightarrow> bool" where
  "number_less NaN k = False"
| "number_less (Number n) k = (n < k)"

fun number_greater :: "number \<Rightarrow> nat \<Rightarrow> bool" where
  "number_greater NaN k = False"
| "number_greater (Number n) k = (n > k)"

section \<open>Constants and helpers\<close>

definition DEFAULT_PADDING :: jsstring where
  "DEFAULT_PADDING = str ''=''"

definition DEFAULT_PADDING_CHAR_CODE :: nat where
  "DEFAULT_PADDING_CHAR_CODE = 0x3d"

definition ENCODING_SHIFTS :: "nat list" where "ENCODING_SHIFTS = [2, 4, 6]"
definition ENCODING_MASKS :: "nat list" where "ENCODING_MASKS = [3, 0xf, 0x3f]"
definition ENCODING_DIGITS :: "nat list" where "ENCODING_DIGITS = [4, 2, 0]"

definition DECODING_SHIFTS :: "nat list" where "DECODING_SHIFTS = [2, 4, 6, 0]"
definition DECODING_MASKS :: "nat list" where "DECODING_MASKS = [0, 0xf, 3, 0]"
definition DECODING_DIGITS :: "nat list" where "DECODING_DIGITS = [0, 4, 2, 0]"

text \<open>\<^verbatim>\<open>remaining = length - index\<close> is positive wherever the source calls these two
  (the loops guard with \<^verbatim>\<open>i < length\<close>); a non-positive \<^verbatim>\<open>remaining\<close> and the truncated
  difference 0 both make the inner loop run zero times.\<close>

definition GetEncodingBytes :: "nat \<Rightarrow> nat \<Rightarrow> nat" where
  "GetEncodingBytes len index = (let remaining = len - index in if remaining < 3 then remaining else 3)"

definition GetDecodingBytes :: "nat \<Rightarrow> nat \<Rightarrow> nat" where
  "GetDecodingBytes len index = (let remaining = len - index in if remaining < 4 then remaining else 4)"

definition GetPaddedLength :: "nat \<Rightarrow> nat" where
  "GetPaddedLength len = (let remainder = len mod 4 in if remainder \<noteq> 0 then len + (4 - remainder) else len)"

text \<open>\<^verbatim>\<open>MathCeil(length * FACTOR)\<close> with \<^verbatim>\<open>FACTOR = 4 / 3\<close> and
  \<^verbatim>\<open>MathCeil(length * INVERSE_FACTOR)\<close> with \<^verbatim>\<open>INVERSE_FACTOR = 3 / 4\<close> are computed in
  double precision; for every length a string or typed array can have the result is the exact
  integer ceiling, which is what the model computes.\<close>

definition GetCapacity :: "nat \<Rightarrow> bool \<Rightarrow> nat" where
  "GetCapacity len withPadding =
     (let capacity = (len * 4 + 2) div 3 in if withPadding then GetPaddedLength capacity else capacity)"

definition GetInverseCapacity :: "nat \<Rightarrow> nat" where
  "GetInverseCapacity len = (len * 3 + 3) div 4"

section \<open>The encoding instance and its constructor\<close>

text \<open>The internal slots of a \<^verbatim>\<open>Base64Encoding\<close>. The three \<^verbatim>\<open>Map\<close>s are keyed by what the
  constructor stores: \<^verbatim>\<open>alphabet[i]\<close> (possibly \<^verbatim>\<open>undefined\<close>), the index, and the character
  code (possibly \<^verbatim>\<open>NaN\<close>, which a \<^verbatim>\<open>Map\<close> treats as one key). \<open>PaddingCharCode\<close> is \<open>None\<close>
  when the slot holds \<^verbatim>\<open>undefined\<close>.\<close>

record base64 =
  Alphabet :: jsstring
  AlphabetLookup :: "jsval \<rightharpoonup> nat"
  BaseMap :: "nat \<rightharpoonup> number"
  BaseMapLookup :: "number \<rightharpoonup> nat"
  Padding :: jsstring
  PaddingCharCode :: "nat option"

text \<open>The constructor's \<^verbatim>\<open>options\<close> argument: \<open>None\<close> is \<^verbatim>\<open>undefined\<close>, and
  \<open>opt_padding = None\<close> is an options object without \<^verbatim>\<open>padding\<close>. The types exclude the
  arguments on which the constructor raises a \<^verbatim>\<open>TypeError\<close> (an alphabet or a padding that
  is not a string, options that are not an object).\<close>

record ctor_options =
  opt_padding :: "jsstring option"

type_synonym tables = "(jsval \<rightharpoonup> nat) \<times> (nat \<rightharpoonup> number) \<times> (number \<rightharpoonup> nat)"

text \<open>The loop \<^verbatim>\<open>for (let i = 0; i < 64; i++)\<close> of the constructor.\<close>

function ctor_loop :: "jsstring \<Rightarrow> nat \<Rightarrow> tables \<Rightarrow> error + tables" where
  "ctor_loop alphabet i (alphabetLookup, baseMap, baseMapLookup) =
     (if i < 64 then
        let char = char_at alphabet i in
        if alphabetLookup char \<noteq> None then Inl (RangeError ''Invalid alphabet'')
        else
          let charCode = StringCharCodeAt alphabet i in
          if number_less charCode 0x21 \<or> number_greater charCode 0x7e
          then Inl (RangeError ''Invalid alphabet'')
          else ctor_loop alphabet (i + 1)
                 (alphabetLookup(char \<mapsto> i), baseMap(i \<mapsto> charCode), baseMapLookup(charCode \<mapsto> i))
      else Inr (alphabetLookup, baseMap, baseMapLookup))"
  by pat_completeness auto
termination
  by (relation "measure (\<lambda>(alphabet, i, m). 64 - i)") auto

declare ctor_loop.simps [simp del]

text \<open>The choice of \<^verbatim>\<open>padding\<close> and \<^verbatim>\<open>paddingCharCode\<close> (source lines 530 to 556).\<close>

definition ctor_padding :: "ctor_options option \<Rightarrow> error + (jsstring \<times> nat option)" where
  "ctor_padding options =
     (case options of
        None \<Rightarrow> Inr (DEFAULT_PADDING, Some DEFAULT_PADDING_CHAR_CODE)
      | Some opts \<Rightarrow>
          (case opt_padding opts of
             None \<Rightarrow> Inr (DEFAULT_PADDING, Some DEFAULT_PADDING_CHAR_CODE)
           | Some padding \<Rightarrow>
               if length padding > 1 then Inl (RangeError ''Invalid padding'')
               else if padding \<noteq> [] then
                 let paddingCharCode = StringCharCodeAt padding 0 in
                 if number_less paddingCharCode 0x21 \<or> number_greater paddingCharCode 0x7e
                 then Inl (RangeError ''Invalid padding'')
                 else Inr (padding, Some (ToInt32 paddingCharCode))
               else Inr (padding, None)))"

definition Base64Encoding :: "jsstring \<Rightarrow> ctor_options option \<Rightarrow> error + base64" where
  "Base64Encoding alphabet options =
     (let len = length alphabet in
      if len = 0 \<or> len > 64 then Inl (RangeError ''Alphabet length out of range'')
      else
        case ctor_loop alphabet 0 (Map.empty, Map.empty, Map.empty) of
          Inl e \<Rightarrow> Inl e
        | Inr (alphabetLookup, baseMap, baseMapLookup) \<Rightarrow>
            (case ctor_padding options of
               Inl e \<Rightarrow> Inl e
             | Inr (padding, paddingCharCode) \<Rightarrow>
                 if alphabetLookup (Str padding) \<noteq> None then Inl (RangeError ''Invalid padding'')
                 else Inr \<lparr>Alphabet = alphabet, AlphabetLookup = alphabetLookup,
                           BaseMap = baseMap, BaseMapLookup = baseMapLookup,
                           Padding = padding, PaddingCharCode = paddingCharCode\<rparr>))"

text \<open>The two exported instances.\<close>

definition BASIC_alphabet :: jsstring where
  "BASIC_alphabet = str ''ABCDEFGHIJKLMNOPQRSTUVWXYZabcdefghijklmnopqrstuvwxyz0123456789+/''"

definition URL_alphabet :: jsstring where
  "URL_alphabet = str ''ABCDEFGHIJKLMNOPQRSTUVWXYZabcdefghijklmnopqrstuvwxyz0123456789-_''"

definition BASIC :: base64 where
  "BASIC = projr (Base64Encoding BASIC_alphabet None)"

definition URL :: base64 where
  "URL = projr (Base64Encoding URL_alphabet (Some \<lparr>opt_padding = Some []\<rparr>))"

section \<open>Encoding\<close>

text \<open>An element of one of the constant \<^verbatim>\<open>Uint8Array\<close> tables. The loops only index them
  below their length; beyond it JavaScript yields \<^verbatim>\<open>undefined\<close>, which the bitwise operators
  read as 0.\<close>

definition table_at :: "nat list \<Rightarrow> nat \<Rightarrow> nat" where
  "table_at xs j = (if j < length xs then xs ! j else 0)"

text \<open>\<^verbatim>\<open>source[position]\<close> on a \<^verbatim>\<open>Uint8Array\<close>; beyond the end the value is \<^verbatim>\<open>undefined\<close>,
  which every use below converts like \<^verbatim>\<open>NaN\<close>.\<close>

definition Uint8At :: "byte list \<Rightarrow> nat \<Rightarrow> number" where
  "Uint8At source i = (if i < length source then Number (unat (source ! i)) else NaN)"

text \<open>\<^verbatim>\<open>result[index] = MapGet(baseMap, charIndex)\<close>: the stored byte; a missing key gives
  \<^verbatim>\<open>undefined\<close>, stored as 0.\<close>

definition MapGet_byte :: "(nat \<rightharpoonup> number) \<Rightarrow> nat \<Rightarrow> byte" where
  "MapGet_byte m k = (case m k of None \<Rightarrow> 0 | Some v \<Rightarrow> ToUint8 v)"

text \<open>\<^verbatim>\<open>GetSlot(target, $Padding) || '\0'\<close>.\<close>

definition padding_or_nul :: "base64 \<Rightarrow> jsstring" where
  "padding_or_nul target = (if Padding target = [] then [0] else Padding target)"

text \<open>\<^verbatim>\<open>GetSlot(target, $PaddingCharCode) || 0\<close>.\<close>

definition paddingCharCode_or_0 :: "base64 \<Rightarrow> nat" where
  "paddingCharCode_or_0 target = (case PaddingCharCode target of None \<Rightarrow> 0 | Some c \<Rightarrow> c)"

subsection \<open>Encode: string to string\<close>

function Encode_inner ::
  "base64 \<Rightarrow> jsstring \<Rightarrow> nat \<Rightarrow> nat \<Rightarrow> nat \<times> nat \<times> jsstring \<Rightarrow> error + nat \<times> nat \<times> jsstring" where
  "Encode_inner target string bytes j (position, carry, result) =
     (if j < bytes then
        let charCode = StringCharCodeAt string position in
        if number_greater charCode 0xff then Inl (RangeError ''Invalid ASCII encoding'')
        else
          let charIndex = carry + drop_bit (table_at ENCODING_SHIFTS j) (ToInt32 charCode);
              result' = result @ ToString (char_at (Alphabet target) charIndex);
              carry' = push_bit (table_at ENCODING_DIGITS j) (ToInt32 charCode AND table_at ENCODING_MASKS j)
          in Encode_inner target string bytes (j + 1) (position + 1, carry', result')
      else Inr (position, carry, result))"
  by pat_completeness auto
termination
  by (relation "measure (\<lambda>(target, string, bytes, j, st). bytes - j)") auto

declare Encode_inner.simps [simp del]

function Encode_loop ::
  "base64 \<Rightarrow> jsstring \<Rightarrow> nat \<Rightarrow> nat \<times> jsstring \<Rightarrow> error + nat \<times> jsstring" where
  "Encode_loop target string i (position, result) =
     (if i < length string then
        let bytes = GetEncodingBytes (length string) i in
        case Encode_inner target string bytes 0 (position, 0, result) of
          Inl e \<Rightarrow> Inl e
        | Inr (position', carry, result') \<Rightarrow>
            Encode_loop target string (i + 3)
              (position', result' @ ToString (char_at (Alphabet target) carry))
      else Inr (position, result))"
  by pat_completeness auto
termination
  by (relation "measure (\<lambda>(target, string, i, st). length string - i)") auto

declare Encode_loop.simps [simp del]

text \<open>\<^verbatim>\<open>while (result.length < paddedLength) result += padding\<close>, with
  \<^verbatim>\<open>padding = GetSlot(target, $Padding) || '\0'\<close>, which is never empty.\<close>

function pad_string :: "base64 \<Rightarrow> jsstring \<Rightarrow> nat \<Rightarrow> jsstring" where
  "pad_string target result paddedLength =
     (if length result < paddedLength
      then pad_string target (result @ padding_or_nul target) paddedLength
      else result)"
  by pat_completeness auto
termination
  by (relation "measure (\<lambda>(target, result, paddedLength). paddedLength - length result)")
    (auto simp: padding_or_nul_def neq_Nil_conv)

declare pad_string.simps [simp del]

definition Encode :: "base64 \<Rightarrow> jsstring \<Rightarrow> bool \<Rightarrow> error + jsstring" where
  "Encode target string withPadding =
     (if length string = 0 then Inr []
      else
        case Encode_loop target string 0 (0, []) of
          Inl e \<Rightarrow> Inl e
        | Inr (position, result) \<Rightarrow>
            if withPadding then
              let paddedLength = GetPaddedLength (length result) in
              if length result < paddedLength then Inr (pad_string target result paddedLength)
              else Inr result
            else Inr result)"

subsection \<open>EncodeToBytes: string to bytes\<close>

function EncodeToBytes_inner ::
  "base64 \<Rightarrow> jsstring \<Rightarrow> nat \<Rightarrow> nat \<Rightarrow> nat \<times> nat \<times> nat \<times> byte list
     \<Rightarrow> error + nat \<times> nat \<times> nat \<times> byte list" where
  "EncodeToBytes_inner target string bytes j (index, position, carry, result) =
     (if j < bytes then
        let charCode = StringCharCodeAt string position in
        if number_greater charCode 0xff then Inl (RangeError ''Invalid ASCII encoding'')
        else
          let charIndex = carry + drop_bit (table_at ENCODING_SHIFTS j) (ToInt32 charCode);
              result' = result[index := MapGet_byte (BaseMap target) charIndex];
              carry' = push_bit (table_at ENCODING_DIGITS j) (ToInt32 charCode AND table_at ENCODING_MASKS j)
          in EncodeToBytes_inner target string bytes (j + 1) (index + 1, position + 1, carry', result')
      else Inr (index, position, carry, result))"
  by pat_completeness auto
termination
  by (relation "measure (\<lambda>(target, string, bytes, j, st). bytes - j)") auto

declare EncodeToBytes_inner.simps [simp del]

function EncodeToBytes_loop ::
  "base64 \<Rightarrow> jsstring \<Rightarrow> nat \<Rightarrow> nat \<times> nat \<times> byte list \<Rightarrow> error + nat \<times> nat \<times> byte list" where
  "EncodeToBytes_loop target string i (index, position, result) =
     (if i < length string then
        let bytes = GetEncodingBytes (length string) i in
        case EncodeToBytes_inner target string bytes 0 (index, position, 0, result) of
          Inl e \<Rightarrow> Inl e
        | Inr (index', position', carry, result') \<Rightarrow>
            EncodeToBytes_loop target string (i + 3)
              (index' + 1, position', result'[index' := MapGet_byte (BaseMap target) carry])
      else Inr (index, position, result))"
  by pat_completeness auto
termination
  by (relation "measure (\<lambda>(target, string, i, st). length string - i)") auto

declare EncodeToBytes_loop.simps [simp del]

text \<open>\<^verbatim>\<open>while (index < capacity) result[index++] = paddingCharCode\<close>.\<close>

function pad_bytes :: "nat \<Rightarrow> nat \<Rightarrow> nat \<Rightarrow> byte list \<Rightarrow> byte list" where
  "pad_bytes paddingCharCode capacity index result =
     (if index < capacity
      then pad_bytes paddingCharCode capacity (index + 1) (result[index := of_nat paddingCharCode])
      else result)"
  by pat_completeness auto
termination
  by (relation "measure (\<lambda>(paddingCharCode, capacity, index, result). capacity - index)") auto

declare pad_bytes.simps [simp del]

text \<open>The tail shared by \<^verbatim>\<open>EncodeToBytes\<close> and \<^verbatim>\<open>EncodeBytes\<close> (source lines 163 to 171
  and 299 to 307); \<^verbatim>\<open>if (paddingCharCode)\<close> is false for \<^verbatim>\<open>undefined\<close> and for 0.\<close>

definition pad_result :: "base64 \<Rightarrow> bool \<Rightarrow> nat \<Rightarrow> nat \<Rightarrow> byte list \<Rightarrow> byte list" where
  "pad_result target withPadding capacity index result =
     (if withPadding \<and> index < capacity then
        (case PaddingCharCode target of
           None \<Rightarrow> result
         | Some paddingCharCode \<Rightarrow>
             if paddingCharCode \<noteq> 0 then pad_bytes paddingCharCode capacity index result
             else result)
      else result)"

definition EncodeToBytes :: "base64 \<Rightarrow> jsstring \<Rightarrow> bool \<Rightarrow> error + byte list" where
  "EncodeToBytes target string withPadding =
     (if length string = 0 then Inr []
      else
        let capacity = GetCapacity (length string) withPadding;
            result = replicate capacity 0
        in case EncodeToBytes_loop target string 0 (0, 0, result) of
             Inl e \<Rightarrow> Inl e
           | Inr (index, position, result') \<Rightarrow>
               Inr (pad_result target withPadding capacity index result'))"

subsection \<open>EncodeBytes: bytes to bytes\<close>

function EncodeBytes_inner ::
  "base64 \<Rightarrow> byte list \<Rightarrow> nat \<Rightarrow> nat \<Rightarrow> nat \<times> nat \<times> nat \<times> byte list
     \<Rightarrow> nat \<times> nat \<times> nat \<times> byte list" where
  "EncodeBytes_inner target source bytes j (index, position, carry, result) =
     (if j < bytes then
        let byte = Uint8At source position;
            charIndex = carry + drop_bit (table_at ENCODING_SHIFTS j) (ToInt32 byte);
            result' = result[index := MapGet_byte (BaseMap target) charIndex];
            carry' = push_bit (table_at ENCODING_DIGITS j) (ToInt32 byte AND table_at ENCODING_MASKS j)
        in EncodeBytes_inner target source bytes (j + 1) (index + 1, position + 1, carry', result')
      else (index, position, carry, result))"
  by pat_completeness auto
termination
  by (relation "measure (\<lambda>(target, source, bytes, j, st). bytes - j)") auto

declare EncodeBytes_inner.simps [simp del]

function EncodeBytes_loop ::
  "base64 \<Rightarrow> byte list \<Rightarrow> nat \<Rightarrow> nat \<times> nat \<times> byte list \<Rightarrow> nat \<times> nat \<times> byte list" where
  "EncodeBytes_loop target source i (index, position, result) =
     (if i < length source then
        let bytes = GetEncodingBytes (length source) i in
        case EncodeBytes_inner target source bytes 0 (index, position, 0, result) of
          (index', position', carry, result') \<Rightarrow>
            EncodeBytes_loop target source (i + 3)
              (index' + 1, position', result'[index' := MapGet_byte (BaseMap target) carry])
      else (index, position, result))"
  by pat_completeness auto
termination
  by (relation "measure (\<lambda>(target, source, i, st). length source - i)") auto

declare EncodeBytes_loop.simps [simp del]

definition EncodeBytes :: "base64 \<Rightarrow> byte list \<Rightarrow> bool \<Rightarrow> byte list" where
  "EncodeBytes target source withPadding =
     (if length source = 0 then []
      else
        let capacity = GetCapacity (length source) withPadding;
            result = replicate capacity 0
        in case EncodeBytes_loop target source 0 (0, 0, result) of
             (index, position, result') \<Rightarrow> pad_result target withPadding capacity index result')"

subsection \<open>EncodeBytesToString: bytes to string\<close>

function EncodeBytesToString_inner ::
  "base64 \<Rightarrow> byte list \<Rightarrow> nat \<Rightarrow> nat \<Rightarrow> nat \<times> nat \<times> jsstring \<Rightarrow> nat \<times> nat \<times> jsstring" where
  "EncodeBytesToString_inner target source bytes j (position, carry, result) =
     (if j < bytes then
        let byte = Uint8At source position;
            charIndex = carry + drop_bit (table_at ENCODING_SHIFTS j) (ToInt32 byte);
            result' = result @ ToString (char_at (Alphabet target) charIndex);
            carry' = push_bit (table_at ENCODING_DIGITS j) (ToInt32 byte AND table_at ENCODING_MASKS j)
        in EncodeBytesToString_inner target source bytes (j + 1) (position + 1, carry', result')
      else (position, carry, result))"
  by pat_completeness auto
termination
  by (relation "measure (\<lambda>(target, source, bytes, j, st). bytes - j)") auto

declare EncodeBytesToString_inner.simps [simp del]

function EncodeBytesToString_loop ::
  "base64 \<Rightarrow> byte list \<Rightarrow> nat \<Rightarrow> nat \<times> jsstring \<Rightarrow> nat \<times> jsstring" where
  "EncodeBytesToString_loop target source i (position, result) =
     (if i < length source then
        let bytes = GetEncodingBytes (length source) i in
        case EncodeBytesToString_inner target source bytes 0 (position, 0, result) of
          (position', carry, result') \<Rightarrow>
            EncodeBytesToString_loop target source (i + 3)
              (position', result' @ ToString (char_at (Alphabet target) carry))
      else (position, result))"
  by pat_completeness auto
termination
  by (relation "measure (\<lambda>(target, source, i, st). length source - i)") auto

declare EncodeBytesToString_loop.simps [simp del]

definition EncodeBytesToString :: "base64 \<Rightarrow> byte list \<Rightarrow> bool \<Rightarrow> jsstring" where
  "EncodeBytesToString target source withPadding =
     (if length source = 0 then []
      else
        case EncodeBytesToString_loop target source 0 (0, []) of
          (position, result) \<Rightarrow>
            if withPadding then
              let paddedLength = GetPaddedLength (length result) in
              if length result < paddedLength then pad_string target result paddedLength
              else result
            else result)"

section \<open>Decoding\<close>

text \<open>The decoders leave the inner loop in three ways: normally, by \<^verbatim>\<open>throw PADDING\<close>
  (the module's private symbol, caught by the enclosing \<^verbatim>\<open>catch\<close>), or by throwing a
  \<^verbatim>\<open>RangeError\<close>. The variables assigned inside \<^verbatim>\<open>try\<close> keep their values in \<^verbatim>\<open>catch\<close>,
  so the first two carry the state.\<close>

datatype 'a outcome = Completed 'a | ThrowPADDING 'a | Throw error

text \<open>\<^verbatim>\<open>StringFromCharCode\<close> keeps the low 16 bits of its argument.\<close>

definition StringFromCharCode :: "nat \<Rightarrow> jsstring" where
  "StringFromCharCode n = [n mod 65536]"

text \<open>\<^verbatim>\<open>while (position < length && encodedString[position] === padding) position++\<close>.\<close>

function skip_padding :: "base64 \<Rightarrow> jsstring \<Rightarrow> nat \<Rightarrow> nat" where
  "skip_padding target encodedString position =
     (if position < length encodedString
          \<and> char_at encodedString position = Str (padding_or_nul target)
      then skip_padding target encodedString (position + 1)
      else position)"
  by pat_completeness auto
termination
  by (relation "measure (\<lambda>(target, encodedString, position). length encodedString - position)") auto

declare skip_padding.simps [simp del]

subsection \<open>DecodeToBytes: string to bytes\<close>

function DecodeToBytes_inner ::
  "base64 \<Rightarrow> jsstring \<Rightarrow> bool \<Rightarrow> nat \<Rightarrow> nat \<Rightarrow> nat \<times> nat \<times> nat \<times> byte list
     \<Rightarrow> (nat \<times> nat \<times> nat \<times> byte list) outcome" where
  "DecodeToBytes_inner target encodedString ignorePadding bytes j (index, position, carry, result) =
     (if j < bytes then
        let charCode = StringCharCodeAt encodedString position;
            position' = position + 1
        in case BaseMapLookup target charCode of
             None \<Rightarrow>
               if charCode = Number (paddingCharCode_or_0 target) \<and> \<not> ignorePadding
               then ThrowPADDING (index, position', carry, result)
               else Throw (RangeError ''Invalid Base64 encoding'')
           | Some charIndex \<Rightarrow>
               let mask = table_at DECODING_MASKS j;
                   shift = table_at DECODING_SHIFTS j
               in if mask \<noteq> 0 then
                    DecodeToBytes_inner target encodedString ignorePadding bytes (j + 1)
                      (index + 1, position', push_bit shift (charIndex AND mask),
                       result[index := of_nat (carry + drop_bit (table_at DECODING_DIGITS j) charIndex)])
                  else
                    DecodeToBytes_inner target encodedString ignorePadding bytes (j + 1)
                      (index, position', carry + push_bit shift charIndex, result)
      else Completed (index, position, carry, result))"
  by pat_completeness auto
termination
  by (relation "measure (\<lambda>(target, encodedString, ignorePadding, bytes, j, st). bytes - j)") auto

declare DecodeToBytes_inner.simps [simp del]

lemma DecodeToBytes_inner_position:
  "(DecodeToBytes_inner target s ip bytes j st
      = Completed (index', position', carry', result') \<longrightarrow> position' = fst (snd st) + (bytes - j))
   \<and> (DecodeToBytes_inner target s ip bytes j st
      = ThrowPADDING (index', position', carry', result') \<longrightarrow> fst (snd st) < position' \<and> j < bytes)"
proof (induction target s ip bytes j st rule: DecodeToBytes_inner.induct)
  case (1 target s ip bytes j index position carry result)
  show ?case
  proof (cases "j < bytes")
    case False
    then show ?thesis by (simp add: DecodeToBytes_inner.simps)
  next
    case True
    show ?thesis
    proof (cases "BaseMapLookup target (StringCharCodeAt s position)")
      case None
      with True show ?thesis by (auto simp: DecodeToBytes_inner.simps)
    next
      case (Some charIndex)
      show ?thesis
      proof (cases "table_at DECODING_MASKS j \<noteq> 0")
        case mask: True
        from "1.IH"(1)[OF True refl refl Some refl refl mask] True Some mask
        show ?thesis by (auto simp: DecodeToBytes_inner.simps [of _ _ _ bytes j] Let_def)
      next
        case mask: False
        from "1.IH"(2)[OF True refl refl Some refl refl mask] True Some mask
        show ?thesis by (auto simp: DecodeToBytes_inner.simps [of _ _ _ bytes j] Let_def)
      qed
    qed
  qed
qed

lemma skip_padding_ge: "position \<le> skip_padding target s position"
proof (induction target s position rule: skip_padding.induct)
  case (1 target s position)
  then show ?case
    by (cases "position < length s \<and> char_at s position = Str (padding_or_nul target)")
      (auto simp: skip_padding.simps [of _ _ position])
qed

function DecodeToBytes_loop ::
  "base64 \<Rightarrow> jsstring \<Rightarrow> bool \<Rightarrow> bool \<Rightarrow> nat \<Rightarrow> nat \<times> nat \<times> byte list
     \<Rightarrow> error + nat \<times> nat \<times> byte list" where
  "DecodeToBytes_loop target encodedString ignorePadding allowConcatenation i (index, position, result) =
     (if i < length encodedString then
        let bytes = GetDecodingBytes (length encodedString) position in
        case DecodeToBytes_inner target encodedString ignorePadding bytes 0 (index, position, 0, result) of
          Completed (index', position', carry, result') \<Rightarrow>
            DecodeToBytes_loop target encodedString ignorePadding allowConcatenation (i + 4)
              (index' + 1, position', result'[index' := of_nat carry])
        | ThrowPADDING (index', position', carry, result') \<Rightarrow>
            if allowConcatenation then
              let position'' = skip_padding target encodedString position' in
              DecodeToBytes_loop target encodedString ignorePadding allowConcatenation (position'' + 4)
                (index', position'', result')
            else Inr (index', position', result')
        | Throw e \<Rightarrow> Inl e
      else Inr (index, position, result))"
  by pat_completeness auto
termination
proof (relation "measures [\<lambda>(target, s, ip, ac, i, index, position, result). length s - position,
                           \<lambda>(target, s, ip, ac, i, index, position, result). length s - i]",
    goal_cases)
  case 1
  show ?case by simp
next
  case (2 target s ip ac i index position result bytes st index' st' position' st'' carry result')
  then have "DecodeToBytes_inner target s ip bytes 0 (index, position, 0, result)
      = Completed (index', position', carry, result')"
    by auto
  then have "position' = position + bytes"
    using DecodeToBytes_inner_position [of target s ip bytes 0 "(index, position, 0, result)"]
    by simp
  with 2 show ?case
    by (auto simp: GetDecodingBytes_def Let_def split: if_splits)
next
  case (3 target s ip ac i index position result bytes st index' st' position' st'' carry result' position'')
  then have "DecodeToBytes_inner target s ip bytes 0 (index, position, 0, result)
      = ThrowPADDING (index', position', carry, result')"
    by auto
  then have "position < position'" "0 < bytes"
    using DecodeToBytes_inner_position [of target s ip bytes 0 "(index, position, 0, result)"]
    by simp_all
  moreover have "position' \<le> position''"
    using 3 skip_padding_ge by simp
  ultimately show ?case using 3
    by (auto simp: GetDecodingBytes_def Let_def split: if_splits)
qed

declare DecodeToBytes_loop.simps [simp del]

definition DecodeToBytes :: "base64 \<Rightarrow> jsstring \<Rightarrow> bool \<Rightarrow> bool \<Rightarrow> error + byte list" where
  "DecodeToBytes target encodedString ignorePadding allowConcatenation =
     (if length encodedString = 0 then Inr []
      else
        let capacity = GetInverseCapacity (length encodedString);
            result = replicate capacity 0
        in case DecodeToBytes_loop target encodedString ignorePadding allowConcatenation 0 (0, 0, result) of
             Inl e \<Rightarrow> Inl e
           | Inr (index, position, result') \<Rightarrow>
               Inr (if capacity \<noteq> index then take index result' else result'))"

subsection \<open>Decode: string to string\<close>

function Decode_inner ::
  "base64 \<Rightarrow> jsstring \<Rightarrow> bool \<Rightarrow> nat \<Rightarrow> nat \<Rightarrow> nat \<times> nat \<times> jsstring
     \<Rightarrow> (nat \<times> nat \<times> jsstring) outcome" where
  "Decode_inner target encodedString ignorePadding bytes j (position, carry, result) =
     (if j < bytes then
        let charCode = StringCharCodeAt encodedString position;
            position' = position + 1
        in case BaseMapLookup target charCode of
             None \<Rightarrow>
               if charCode = Number (paddingCharCode_or_0 target) \<and> \<not> ignorePadding
               then ThrowPADDING (position', carry, result)
               else Throw (RangeError ''Invalid Base64 encoding'')
           | Some charIndex \<Rightarrow>
               let mask = table_at DECODING_MASKS j;
                   shift = table_at DECODING_SHIFTS j
               in if mask \<noteq> 0 then
                    let charCode' = carry + drop_bit (table_at DECODING_DIGITS j) charIndex in
                    Decode_inner target encodedString ignorePadding bytes (j + 1)
                      (position', push_bit shift (charIndex AND mask),
                       result @ StringFromCharCode charCode')
                  else
                    Decode_inner target encodedString ignorePadding bytes (j + 1)
                      (position', carry + push_bit shift charIndex, result)
      else Completed (position, carry, result))"
  by pat_completeness auto
termination
  by (relation "measure (\<lambda>(target, encodedString, ignorePadding, bytes, j, st). bytes - j)") auto

declare Decode_inner.simps [simp del]

lemma Decode_inner_position:
  "(Decode_inner target s ip bytes j st
      = Completed (position', carry', result') \<longrightarrow> position' = fst st + (bytes - j))
   \<and> (Decode_inner target s ip bytes j st
      = ThrowPADDING (position', carry', result') \<longrightarrow> fst st < position' \<and> j < bytes)"
proof (induction target s ip bytes j st rule: Decode_inner.induct)
  case (1 target s ip bytes j position carry result)
  show ?case
  proof (cases "j < bytes")
    case False
    then show ?thesis by (simp add: Decode_inner.simps)
  next
    case True
    show ?thesis
    proof (cases "BaseMapLookup target (StringCharCodeAt s position)")
      case None
      with True show ?thesis by (auto simp: Decode_inner.simps)
    next
      case (Some charIndex)
      show ?thesis
      proof (cases "table_at DECODING_MASKS j \<noteq> 0")
        case mask: True
        from "1.IH"(1)[OF True refl refl Some refl refl mask refl] True Some mask
        show ?thesis by (auto simp: Decode_inner.simps [of _ _ _ bytes j] Let_def)
      next
        case mask: False
        from "1.IH"(2)[OF True refl refl Some refl refl mask] True Some mask
        show ?thesis by (auto simp: Decode_inner.simps [of _ _ _ bytes j] Let_def)
      qed
    qed
  qed
qed

function Decode_loop ::
  "base64 \<Rightarrow> jsstring \<Rightarrow> bool \<Rightarrow> bool \<Rightarrow> nat \<Rightarrow> nat \<times> jsstring \<Rightarrow> error + nat \<times> jsstring" where
  "Decode_loop target encodedString ignorePadding allowConcatenation i (position, result) =
     (if i < length encodedString then
        let bytes = GetDecodingBytes (length encodedString) position in
        case Decode_inner target encodedString ignorePadding bytes 0 (position, 0, result) of
          Completed (position', carry, result') \<Rightarrow>
            Decode_loop target encodedString ignorePadding allowConcatenation (i + 4)
              (position', result' @ StringFromCharCode carry)
        | ThrowPADDING (position', carry, result') \<Rightarrow>
            if allowConcatenation then
              let position'' = skip_padding target encodedString position' in
              Decode_loop target encodedString ignorePadding allowConcatenation (position'' + 4)
                (position'', result')
            else Inr (position', result')
        | Throw e \<Rightarrow> Inl e
      else Inr (position, result))"
  by pat_completeness auto
termination
proof (relation "measures [\<lambda>(target, s, ip, ac, i, position, result). length s - position,
                           \<lambda>(target, s, ip, ac, i, position, result). length s - i]",
    goal_cases)
  case 1
  show ?case by simp
next
  case (2 target s ip ac i position result bytes st position' st' carry result')
  then have "Decode_inner target s ip bytes 0 (position, 0, result)
      = Completed (position', carry, result')"
    by auto
  then have "position' = position + bytes"
    using Decode_inner_position [of target s ip bytes 0 "(position, 0, result)"]
    by simp
  with 2 show ?case
    by (auto simp: GetDecodingBytes_def Let_def split: if_splits)
next
  case (3 target s ip ac i position result bytes st position' st' carry result' position'')
  then have "Decode_inner target s ip bytes 0 (position, 0, result)
      = ThrowPADDING (position', carry, result')"
    by auto
  then have "position < position'" "0 < bytes"
    using Decode_inner_position [of target s ip bytes 0 "(position, 0, result)"]
    by simp_all
  moreover have "position' \<le> position''"
    using 3 skip_padding_ge by simp
  ultimately show ?case using 3
    by (auto simp: GetDecodingBytes_def Let_def split: if_splits)
qed

declare Decode_loop.simps [simp del]

definition Decode :: "base64 \<Rightarrow> jsstring \<Rightarrow> bool \<Rightarrow> bool \<Rightarrow> error + jsstring" where
  "Decode target encodedString ignorePadding allowConcatenation =
     (if length encodedString = 0 then Inr []
      else
        case Decode_loop target encodedString ignorePadding allowConcatenation 0 (0, []) of
          Inl e \<Rightarrow> Inl e
        | Inr (position, result) \<Rightarrow> Inr result)"

section \<open>Integers\<close>

text \<open>\<^verbatim>\<open>EncodeInt\<close> and \<^verbatim>\<open>DecodeInt\<close> compute on JavaScript numbers, \<^verbatim>\<open>EncodeBigInt\<close> and
  \<^verbatim>\<open>DecodeBigInt\<close> on \<^verbatim>\<open>BigInt\<close>s. The model computes all four on natural numbers: that is
  exact for \<^verbatim>\<open>BigInt\<close>, and for numbers as long as every intermediate value is below
  \<open>2 ^ 53\<close> (the methods reject negative and infinite arguments before calling
  \<^verbatim>\<open>EncodeInt\<close>). Both encoders return \<^verbatim>\<open>alphabet[0]\<close> for zero, a value that is
  \<^verbatim>\<open>undefined\<close> only for an empty alphabet.\<close>

function EncodeInt_loop :: "base64 \<Rightarrow> nat \<Rightarrow> jsstring \<Rightarrow> jsstring" where
  "EncodeInt_loop target carry result =
     (if carry \<noteq> 0 then
        let charIndex = carry mod 64;
            char = char_at (Alphabet target) charIndex;
            result' = ToString char @ result;
            carry' = carry div 64
        in EncodeInt_loop target carry' result'
      else result)"
  by pat_completeness auto
termination
  by (relation "measure (\<lambda>(target, carry, result). carry)") auto

declare EncodeInt_loop.simps [simp del]

definition EncodeInt :: "base64 \<Rightarrow> nat \<Rightarrow> jsval" where
  "EncodeInt target integer =
     (if integer = 0 then char_at (Alphabet target) 0
      else Str (EncodeInt_loop target integer []))"

text \<open>\<^verbatim>\<open>while (leadingZeros < length && encodedInteger[leadingZeros] === zeroChar)
  leadingZeros++\<close>.\<close>

function count_leadingZeros :: "jsval \<Rightarrow> jsstring \<Rightarrow> nat \<Rightarrow> nat" where
  "count_leadingZeros zeroChar encodedInteger leadingZeros =
     (if leadingZeros < length encodedInteger \<and> char_at encodedInteger leadingZeros = zeroChar
      then count_leadingZeros zeroChar encodedInteger (leadingZeros + 1)
      else leadingZeros)"
  by pat_completeness auto
termination
  by (relation "measure (\<lambda>(zeroChar, encodedInteger, leadingZeros). length encodedInteger - leadingZeros)")
    auto

declare count_leadingZeros.simps [simp del]

function DecodeInt_loop :: "base64 \<Rightarrow> jsstring \<Rightarrow> nat \<Rightarrow> nat \<Rightarrow> number" where
  "DecodeInt_loop target encodedInteger i result =
     (if i < length encodedInteger then
        let char = char_at encodedInteger i in
        case AlphabetLookup target char of
          None \<Rightarrow> NaN
        | Some charIndex \<Rightarrow> DecodeInt_loop target encodedInteger (i + 1) (result * 64 + charIndex)
      else Number result)"
  by pat_completeness auto
termination
  by (relation "measure (\<lambda>(target, encodedInteger, i, result). length encodedInteger - i)") auto

declare DecodeInt_loop.simps [simp del]

definition DecodeInt :: "base64 \<Rightarrow> jsstring \<Rightarrow> number" where
  "DecodeInt target encodedInteger =
     (if length encodedInteger = 0 then NaN
      else
        let zeroChar = char_at (Alphabet target) 0;
            leadingZeros = count_leadingZeros zeroChar encodedInteger 0
        in DecodeInt_loop target encodedInteger leadingZeros 0)"

function EncodeBigInt_loop :: "base64 \<Rightarrow> nat \<Rightarrow> jsstring \<Rightarrow> jsstring" where
  "EncodeBigInt_loop target carry result =
     (if carry \<noteq> 0 then
        let charIndex = carry mod 64;
            char = char_at (Alphabet target) charIndex;
            result' = ToString char @ result;
            carry' = carry div 64
        in EncodeBigInt_loop target carry' result'
      else result)"
  by pat_completeness auto
termination
  by (relation "measure (\<lambda>(target, carry, result). carry)") auto

declare EncodeBigInt_loop.simps [simp del]

definition EncodeBigInt :: "base64 \<Rightarrow> nat \<Rightarrow> jsval" where
  "EncodeBigInt target bigint =
     (if bigint = 0 then char_at (Alphabet target) 0
      else Str (EncodeBigInt_loop target bigint []))"

function DecodeBigInt_loop :: "base64 \<Rightarrow> jsstring \<Rightarrow> nat \<Rightarrow> nat \<Rightarrow> error + nat" where
  "DecodeBigInt_loop target encodedInteger i result =
     (if i < length encodedInteger then
        let char = char_at encodedInteger i in
        case AlphabetLookup target char of
          None \<Rightarrow> Inl (RangeError ''Invalid Base64 encoded integer'')
        | Some charIndex \<Rightarrow> DecodeBigInt_loop target encodedInteger (i + 1) (result * 64 + charIndex)
      else Inr result)"
  by pat_completeness auto
termination
  by (relation "measure (\<lambda>(target, encodedInteger, i, result). length encodedInteger - i)") auto

declare DecodeBigInt_loop.simps [simp del]

definition DecodeBigInt :: "base64 \<Rightarrow> jsstring \<Rightarrow> error + nat" where
  "DecodeBigInt target encodedInteger =
     (if length encodedInteger = 0 then Inl (RangeError ''Invalid Base64 encoded integer'')
      else
        let zeroChar = char_at (Alphabet target) 0;
            leadingZeros = count_leadingZeros zeroChar encodedInteger 0
        in DecodeBigInt_loop target encodedInteger leadingZeros 0)"

section \<open>The methods of \<^verbatim>\<open>Base64Encoding.prototype\<close>\<close>

text \<open>The per-call \<^verbatim>\<open>options\<close> argument: \<open>None\<close> is \<^verbatim>\<open>undefined\<close>, a field that is
  \<open>None\<close> is absent from the options object (or \<^verbatim>\<open>undefined\<close>). The methods convert the
  fields with \<^verbatim>\<open>!!\<close>, which is the identity on booleans. The receiver is an instance and the
  arguments are strings or buffers, so \<^verbatim>\<open>RequireThis\<close>, \<^verbatim>\<open>RequireBuffer\<close>,
  \<^verbatim>\<open>RequireOptionsObject\<close> and \<^verbatim>\<open>ToString\<close> on the argument do nothing.\<close>

record encode_options =
  opt_withPadding :: "bool option"

record decode_options =
  opt_ignorePadding :: "bool option"
  opt_allowConcatenation :: "bool option"

definition encode :: "base64 \<Rightarrow> jsstring \<Rightarrow> encode_options option \<Rightarrow> error + jsstring" where
  "encode this string options =
     (let withPadding = (Padding this \<noteq> []);
          withPadding' =
            (case options of
               None \<Rightarrow> withPadding
             | Some opts \<Rightarrow> (case opt_withPadding opts of None \<Rightarrow> withPadding | Some w \<Rightarrow> w))
      in Encode this string withPadding')"

definition encodeToBytes :: "base64 \<Rightarrow> jsstring \<Rightarrow> encode_options option \<Rightarrow> error + byte list" where
  "encodeToBytes this string options =
     (let withPadding = False;
          withPadding' =
            (case options of
               None \<Rightarrow> withPadding
             | Some opts \<Rightarrow> (case opt_withPadding opts of None \<Rightarrow> False | Some w \<Rightarrow> w))
      in EncodeToBytes this string withPadding')"

definition encodeBytes :: "base64 \<Rightarrow> byte list \<Rightarrow> encode_options option \<Rightarrow> byte list" where
  "encodeBytes this buffer options =
     (let withPadding = False;
          withPadding' =
            (case options of
               None \<Rightarrow> withPadding
             | Some opts \<Rightarrow> (case opt_withPadding opts of None \<Rightarrow> False | Some w \<Rightarrow> w))
      in EncodeBytes this buffer withPadding')"

definition encodeBytesToString :: "base64 \<Rightarrow> byte list \<Rightarrow> encode_options option \<Rightarrow> jsstring" where
  "encodeBytesToString this buffer options =
     (let withPadding = (Padding this \<noteq> []);
          withPadding' =
            (case options of
               None \<Rightarrow> withPadding
             | Some opts \<Rightarrow> (case opt_withPadding opts of None \<Rightarrow> withPadding | Some w \<Rightarrow> w))
      in EncodeBytesToString this buffer withPadding')"

text \<open>The text variants encode the UTF-8 bytes of the text; \<^verbatim>\<open>UTF8Encode\<close> comes from the
  package \<^verbatim>\<open>@dwlib/utf8\<close> and is a parameter here.\<close>

definition EncodeText :: "(jsstring \<Rightarrow> byte list) \<Rightarrow> base64 \<Rightarrow> jsstring \<Rightarrow> bool \<Rightarrow> jsstring" where
  "EncodeText UTF8Encode target text withPadding =
     (let buffer = UTF8Encode text in EncodeBytesToString target buffer withPadding)"

definition EncodeTextToBytes :: "(jsstring \<Rightarrow> byte list) \<Rightarrow> base64 \<Rightarrow> jsstring \<Rightarrow> bool \<Rightarrow> byte list" where
  "EncodeTextToBytes UTF8Encode target text withPadding =
     (let buffer = UTF8Encode text in EncodeBytes target buffer withPadding)"

definition encodeText ::
  "(jsstring \<Rightarrow> byte list) \<Rightarrow> base64 \<Rightarrow> jsstring \<Rightarrow> encode_options option \<Rightarrow> jsstring" where
  "encodeText UTF8Encode this text options =
     (let withPadding = (Padding this \<noteq> []);
          withPadding' =
            (case options of
               None \<Rightarrow> withPadding
             | Some opts \<Rightarrow> (case opt_withPadding opts of None \<Rightarrow> withPadding | Some w \<Rightarrow> w))
      in EncodeText UTF8Encode this text withPadding')"

definition encodeTextToBytes ::
  "(jsstring \<Rightarrow> byte list) \<Rightarrow> base64 \<Rightarrow> jsstring \<Rightarrow> encode_options option \<Rightarrow> byte list" where
  "encodeTextToBytes UTF8Encode this text options =
     (let withPadding = False;
          withPadding' =
            (case options of
               None \<Rightarrow> withPadding
             | Some opts \<Rightarrow> (case opt_withPadding opts of None \<Rightarrow> False | Some w \<Rightarrow> w))
      in EncodeTextToBytes UTF8Encode this text withPadding')"

text \<open>The decoding methods share one treatment of their options (source lines 608 to 617,
  repeated in each).\<close>

definition decode_flags :: "base64 \<Rightarrow> decode_options option \<Rightarrow> bool \<times> bool" where
  "decode_flags this options =
     (let ignorePadding = (Padding this = []);
          allowConcatenation = False
      in case options of
           None \<Rightarrow> (ignorePadding, allowConcatenation)
         | Some opts \<Rightarrow>
             ((case opt_ignorePadding opts of None \<Rightarrow> ignorePadding | Some b \<Rightarrow> b),
              (case opt_allowConcatenation opts of None \<Rightarrow> False | Some b \<Rightarrow> b)))"

definition decode :: "base64 \<Rightarrow> jsstring \<Rightarrow> decode_options option \<Rightarrow> error + jsstring" where
  "decode this encodedString options =
     (case decode_flags this options of
        (ignorePadding, allowConcatenation) \<Rightarrow>
          Decode this encodedString ignorePadding allowConcatenation)"

definition decodeToBytes :: "base64 \<Rightarrow> jsstring \<Rightarrow> decode_options option \<Rightarrow> error + byte list" where
  "decodeToBytes this encodedString options =
     (case decode_flags this options of
        (ignorePadding, allowConcatenation) \<Rightarrow>
          DecodeToBytes this encodedString ignorePadding allowConcatenation)"

text \<open>\<^verbatim>\<open>encodeInt\<close> receives the result of \<^verbatim>\<open>ToIntegerOrInfinity\<close>; the negative and the
  infinite values it rejects are not natural numbers.\<close>

definition encodeInt :: "base64 \<Rightarrow> nat \<Rightarrow> jsval" where
  "encodeInt this integer = EncodeInt this integer"

definition decodeInt :: "base64 \<Rightarrow> jsval \<Rightarrow> number" where
  "decodeInt this encodedInteger = DecodeInt this (ToString encodedInteger)"

definition encodeBigInt :: "base64 \<Rightarrow> nat \<Rightarrow> jsval" where
  "encodeBigInt this bigint = EncodeBigInt this bigint"

definition decodeBigInt :: "base64 \<Rightarrow> jsval \<Rightarrow> error + nat" where
  "decodeBigInt this encodedInteger = DecodeBigInt this (ToString encodedInteger)"

section \<open>What the constructor builds\<close>

lemma char_at_eq_iff:
  "char_at a j = char_at a j' \<longleftrightarrow> StringCharCodeAt a j = StringCharCodeAt a j'"
  by (auto simp: char_at_def StringCharCodeAt_def)

lemma ctor_loop_Inr:
  "ctor_loop a i m = Inr m' \<Longrightarrow>
     (\<forall>j. i \<le> j \<and> j < 64 \<longrightarrow>
        fst m' (char_at a j) = Some j
        \<and> fst (snd m') j = Some (StringCharCodeAt a j)
        \<and> snd (snd m') (StringCharCodeAt a j) = Some j
        \<and> \<not> number_less (StringCharCodeAt a j) 0x21
        \<and> \<not> number_greater (StringCharCodeAt a j) 0x7e
        \<and> fst m (char_at a j) = None)
     \<and> (\<forall>k. (\<forall>j. i \<le> j \<and> j < 64 \<longrightarrow> char_at a j \<noteq> k) \<longrightarrow> fst m' k = fst m k)
     \<and> (\<forall>n. \<not> (i \<le> n \<and> n < 64) \<longrightarrow> fst (snd m') n = fst (snd m) n)
     \<and> (\<forall>c. (\<forall>j. i \<le> j \<and> j < 64 \<longrightarrow> StringCharCodeAt a j \<noteq> c) \<longrightarrow> snd (snd m') c = snd (snd m) c)
     \<and> (\<forall>j j'. i \<le> j \<and> j < j' \<and> j' < 64 \<longrightarrow> char_at a j \<noteq> char_at a j')"
proof (induction a i m rule: ctor_loop.induct)
  case (1 a i al bm bml)
  show ?case
  proof (cases "i < 64")
    case False
    with "1.prems" show ?thesis by (auto simp: ctor_loop.simps)
  next
    case True
    let ?c = "char_at a i" and ?n = "StringCharCodeAt a i"
    from "1.prems" True have free: "al ?c = None"
      by (auto simp: ctor_loop.simps [of a i] Let_def split: if_splits)
    from "1.prems" True free have range: "\<not> (number_less ?n 0x21 \<or> number_greater ?n 0x7e)"
      by (auto simp: ctor_loop.simps [of a i] Let_def split: if_splits)
    from "1.prems" True free range
    have rec: "ctor_loop a (i + 1) (al(?c \<mapsto> i), bm(i \<mapsto> ?n), bml(?n \<mapsto> i)) = Inr m'"
      by (simp add: ctor_loop.simps [of a i] Let_def)
    have free': "al ?c = None \<or> al ?c = None" using free by simp
    note IH = "1.IH" [OF True refl _ refl range rec]
    have IH': "(\<forall>j. i + 1 \<le> j \<and> j < 64 \<longrightarrow>
        fst m' (char_at a j) = Some j
        \<and> fst (snd m') j = Some (StringCharCodeAt a j)
        \<and> snd (snd m') (StringCharCodeAt a j) = Some j
        \<and> \<not> number_less (StringCharCodeAt a j) 0x21
        \<and> \<not> number_greater (StringCharCodeAt a j) 0x7e
        \<and> (al(?c \<mapsto> i)) (char_at a j) = None)
     \<and> (\<forall>k. (\<forall>j. i + 1 \<le> j \<and> j < 64 \<longrightarrow> char_at a j \<noteq> k) \<longrightarrow> fst m' k = (al(?c \<mapsto> i)) k)
     \<and> (\<forall>n. \<not> (i + 1 \<le> n \<and> n < 64) \<longrightarrow> fst (snd m') n = (bm(i \<mapsto> ?n)) n)
     \<and> (\<forall>c. (\<forall>j. i + 1 \<le> j \<and> j < 64 \<longrightarrow> StringCharCodeAt a j \<noteq> c) \<longrightarrow> snd (snd m') c = (bml(?n \<mapsto> i)) c)
     \<and> (\<forall>j j'. i + 1 \<le> j \<and> j < j' \<and> j' < 64 \<longrightarrow> char_at a j \<noteq> char_at a j')"
      using IH free by simp
    have later: "char_at a j \<noteq> ?c" if "i + 1 \<le> j" "j < 64" for j
      using IH' that by (metis fun_upd_same option.distinct(1))
    then have later': "StringCharCodeAt a j \<noteq> ?n" if "i + 1 \<le> j" "j < 64" for j
      using that char_at_eq_iff by metis
    have split: "j = i \<or> i + 1 \<le> j" if "i \<le> j" for j using that by auto
    have A: "fst m' (char_at a j) = Some j
        \<and> fst (snd m') j = Some (StringCharCodeAt a j)
        \<and> snd (snd m') (StringCharCodeAt a j) = Some j
        \<and> \<not> number_less (StringCharCodeAt a j) 0x21
        \<and> \<not> number_greater (StringCharCodeAt a j) 0x7e
        \<and> fst (al, bm, bml) (char_at a j) = None" if "i \<le> j" "j < 64" for j
    proof (cases "j = i")
      case True
      have "fst m' ?c = (al(?c \<mapsto> i)) ?c" using IH' later by blast
      moreover have "fst (snd m') i = (bm(i \<mapsto> ?n)) i" using IH' by simp
      moreover have "snd (snd m') ?n = (bml(?n \<mapsto> i)) ?n" using IH' later' by blast
      ultimately show ?thesis using True free range by simp
    next
      case False
      then have j: "i + 1 \<le> j" using that by simp
      then have "(al(?c \<mapsto> i)) (char_at a j) = None" using IH' that by blast
      then have "al (char_at a j) = None" by (simp split: if_splits)
      then show ?thesis using IH' j that by simp
    qed
    have B: "fst m' k = fst (al, bm, bml) k" if "\<forall>j. i \<le> j \<and> j < 64 \<longrightarrow> char_at a j \<noteq> k" for k
    proof -
      have "fst m' k = (al(?c \<mapsto> i)) k" using IH' that by simp
      moreover have "?c \<noteq> k" using that True by blast
      ultimately show ?thesis by simp
    qed
    have C: "fst (snd m') n = fst (snd (al, bm, bml)) n" if "\<not> (i \<le> n \<and> n < 64)" for n
    proof -
      have "fst (snd m') n = (bm(i \<mapsto> ?n)) n" using IH' that by simp
      moreover have "n \<noteq> i" using that True by auto
      ultimately show ?thesis by simp
    qed
    have D: "snd (snd m') c = snd (snd (al, bm, bml)) c"
      if "\<forall>j. i \<le> j \<and> j < 64 \<longrightarrow> StringCharCodeAt a j \<noteq> c" for c
    proof -
      have "snd (snd m') c = (bml(?n \<mapsto> i)) c" using IH' that by simp
      moreover have "?n \<noteq> c" using that True by blast
      ultimately show ?thesis by simp
    qed
    have E: "char_at a j \<noteq> char_at a j'" if "i \<le> j" "j < j'" "j' < 64" for j j'
    proof (cases "j = i")
      case True
      then show ?thesis using later [of j'] that by simp
    next
      case False
      then show ?thesis using IH' that by simp
    qed
    from A B C D E show ?thesis by blast
  qed
qed


text \<open>The position of the first occurrence of an element, used to state what the lookup tables
  of an instance hold.\<close>

fun index_of :: "'a list \<Rightarrow> 'a \<Rightarrow> nat option" where
  "index_of [] x = None"
| "index_of (y # ys) x = (if x = y then Some 0 else map_option Suc (index_of ys x))"

lemma index_of_None: "index_of xs x = None \<longleftrightarrow> x \<notin> set xs"
  by (induction xs) auto

lemma index_of_Some: "index_of xs x = Some j \<Longrightarrow> j < length xs \<and> xs ! j = x"
  by (induction xs arbitrary: j) (auto split: if_splits)

lemma index_of_nth: "distinct xs \<Longrightarrow> j < length xs \<Longrightarrow> index_of xs (xs ! j) = Some j"
proof (induction xs arbitrary: j)
  case Nil
  then show ?case by simp
next
  case (Cons y ys)
  then show ?case by (cases j) auto
qed

lemma ctor_padding_Inr:
  "ctor_padding options = Inr (padding, paddingCharCode) \<Longrightarrow>
     length padding \<le> 1
     \<and> (\<forall>c \<in> set padding. 0x21 \<le> c \<and> c \<le> 0x7e)
     \<and> paddingCharCode = (case padding of [] \<Rightarrow> None | c # cs \<Rightarrow> Some c)"
  by (auto simp: ctor_padding_def DEFAULT_PADDING_def DEFAULT_PADDING_CHAR_CODE_def
      StringCharCodeAt_def Let_def
      split: option.splits if_splits list.splits)

lemma Base64Encoding_Inr:
  assumes "Base64Encoding a options = Inr t"
  shows "Alphabet t = a"
    and "0 < length a \<and> length a \<le> 64"
    and "\<And>j. j < 64 \<Longrightarrow> AlphabetLookup t (char_at a j) = Some j"
    and "\<And>k. (\<forall>j<64. char_at a j \<noteq> k) \<Longrightarrow> AlphabetLookup t k = None"
    and "\<And>j. BaseMap t j = (if j < 64 then Some (StringCharCodeAt a j) else None)"
    and "\<And>j. j < 64 \<Longrightarrow> BaseMapLookup t (StringCharCodeAt a j) = Some j"
    and "\<And>c. (\<forall>j<64. StringCharCodeAt a j \<noteq> c) \<Longrightarrow> BaseMapLookup t c = None"
    and "\<And>j. j < 64 \<Longrightarrow> \<not> number_less (StringCharCodeAt a j) 0x21 \<and> \<not> number_greater (StringCharCodeAt a j) 0x7e"
    and "\<And>j j'. j < j' \<Longrightarrow> j' < 64 \<Longrightarrow> char_at a j \<noteq> char_at a j'"
    and "length (Padding t) \<le> 1"
    and "\<And>c. c \<in> set (Padding t) \<Longrightarrow> 0x21 \<le> c \<and> c \<le> 0x7e"
    and "PaddingCharCode t = (case Padding t of [] \<Rightarrow> None | c # cs \<Rightarrow> Some c)"
    and "AlphabetLookup t (Str (Padding t)) = None"
proof -
  from assms have len: "0 < length a \<and> length a \<le> 64"
    by (auto simp: Base64Encoding_def Let_def split: if_splits)
  from assms len obtain al bm bml where
    loop: "ctor_loop a 0 (Map.empty, Map.empty, Map.empty) = Inr (al, bm, bml)"
    by (auto simp: Base64Encoding_def Let_def split: if_splits sum.splits)
  from assms len loop obtain padding paddingCharCode where
    pad: "ctor_padding options = Inr (padding, paddingCharCode)"
    by (auto simp: Base64Encoding_def Let_def split: if_splits sum.splits)
  from assms len loop pad have free: "al (Str padding) = None"
    by (auto simp: Base64Encoding_def Let_def split: if_splits)
  from assms len loop pad free have t:
    "t = \<lparr>Alphabet = a, AlphabetLookup = al, BaseMap = bm, BaseMapLookup = bml,
          Padding = padding, PaddingCharCode = paddingCharCode\<rparr>"
    by (auto simp: Base64Encoding_def Let_def split: if_splits)
  note L = ctor_loop_Inr [OF loop, simplified]
  note P = ctor_padding_Inr [OF pad]
  show "Alphabet t = a" using t by simp
  show "0 < length a \<and> length a \<le> 64" by (rule len)
  show "\<And>j. j < 64 \<Longrightarrow> AlphabetLookup t (char_at a j) = Some j" using L t by simp
  show "\<And>k. (\<forall>j<64. char_at a j \<noteq> k) \<Longrightarrow> AlphabetLookup t k = None" using L t by simp
  show "\<And>j. BaseMap t j = (if j < 64 then Some (StringCharCodeAt a j) else None)" using L t by simp
  show "\<And>j. j < 64 \<Longrightarrow> BaseMapLookup t (StringCharCodeAt a j) = Some j" using L t by simp
  show "\<And>c. (\<forall>j<64. StringCharCodeAt a j \<noteq> c) \<Longrightarrow> BaseMapLookup t c = None" using L t by simp
  show "\<And>j. j < 64 \<Longrightarrow> \<not> number_less (StringCharCodeAt a j) 0x21 \<and> \<not> number_greater (StringCharCodeAt a j) 0x7e"
    using L by simp
  show "\<And>j j'. j < j' \<Longrightarrow> j' < 64 \<Longrightarrow> char_at a j \<noteq> char_at a j'" using L by simp
  show "length (Padding t) \<le> 1" using P t by simp
  show "\<And>c. c \<in> set (Padding t) \<Longrightarrow> 0x21 \<le> c \<and> c \<le> 0x7e" using P t by simp
  show "PaddingCharCode t = (case Padding t of [] \<Rightarrow> None | c # cs \<Rightarrow> Some c)" using P t by simp
  show "AlphabetLookup t (Str (Padding t)) = None" using free t by simp
qed

text \<open>Every alphabet the constructor accepts has 63 or 64 characters, all distinct and
  printable: the three checks reject everything else.\<close>

lemma Base64Encoding_accepts_only:
  assumes "Base64Encoding a options = Inr t"
  shows "(length a = 63 \<or> length a = 64) \<and> distinct a \<and> (\<forall>c \<in> set a. 0x21 \<le> c \<and> c \<le> 0x7e)"
proof -
  note B = Base64Encoding_Inr [OF assms]
  have len: "63 \<le> length a"
  proof (rule ccontr)
    assume "\<not> 63 \<le> length a"
    then have "char_at a 62 = Undefined" "char_at a 63 = Undefined"
      by (simp_all add: char_at_def)
    then show False using B(9) [of 62 63] by simp
  qed
  have d: "a ! i \<noteq> a ! j" if "i < length a" "j < length a" "i \<noteq> j" for i j
  proof -
    have "char_at a i \<noteq> char_at a j"
      using B(9) [of i j] B(9) [of j i] B(2) that by (cases "i < j") auto
    then show ?thesis using that by (simp add: char_at_def)
  qed
  have r: "0x21 \<le> c \<and> c \<le> 0x7e" if "c \<in> set a" for c
  proof -
    from that obtain j where j: "j < length a" "a ! j = c" by (auto simp: in_set_conv_nth)
    then have "j < 64" using B(2) by simp
    then show ?thesis using B(8) [of j] j by (simp add: StringCharCodeAt_def not_less)
  qed
  from len B(2) d r show ?thesis by (auto simp: distinct_conv_nth)
qed

text \<open>An instance built from an alphabet of 64 characters.\<close>

lemma Base64Encoding_64:
  assumes "Base64Encoding a options = Inr t" and "length a = 64"
  shows "distinct a"
    and "\<And>c. AlphabetLookup t (Str [c]) = index_of a c"
    and "\<And>c. BaseMapLookup t (Number c) = index_of a c"
    and "BaseMapLookup t NaN = None"
    and "\<And>j. j < 64 \<Longrightarrow> BaseMap t j = Some (Number (a ! j))"
    and "\<And>c. c \<in> set a \<Longrightarrow> 0x21 \<le> c \<and> c \<le> 0x7e"
    and "set (Padding t) \<inter> set a = {}"
proof -
  note B = Base64Encoding_Inr [OF assms(1)]
  have ch: "char_at a j = Str [a ! j]" "StringCharCodeAt a j = Number (a ! j)" if "j < 64" for j
    using that assms(2) by (simp_all add: char_at_def StringCharCodeAt_def)
  show d: "distinct a"
    unfolding distinct_conv_nth
  proof (intro allI impI)
    fix i j assume "i < length a" "j < length a" "i \<noteq> j"
    then have "char_at a i \<noteq> char_at a j"
      using B(9) [of i j] B(9) [of j i] assms(2) by (cases "i < j") auto
    then show "a ! i \<noteq> a ! j"
      using ch \<open>i < length a\<close> \<open>j < length a\<close> assms(2) by auto
  qed
  show al: "AlphabetLookup t (Str [c]) = index_of a c" for c
  proof (cases "index_of a c")
    case None
    then have "c \<notin> set a" by (simp add: index_of_None)
    then have "\<forall>j<64. char_at a j \<noteq> Str [c]"
      using ch assms(2) by (auto simp: in_set_conv_nth)
    then show ?thesis using B(4) None by simp
  next
    case (Some j)
    then have "j < 64" "a ! j = c" using index_of_Some assms(2) by fastforce+
    then show ?thesis using B(3) [of j] ch Some by simp
  qed
  show "BaseMapLookup t (Number c) = index_of a c" for c
  proof (cases "index_of a c")
    case None
    then have "c \<notin> set a" by (simp add: index_of_None)
    then have "\<forall>j<64. StringCharCodeAt a j \<noteq> Number c"
      using ch assms(2) by (auto simp: in_set_conv_nth)
    then show ?thesis using B(7) None by simp
  next
    case (Some j)
    then have "j < 64" "a ! j = c" using index_of_Some assms(2) by fastforce+
    then show ?thesis using B(6) [of j] ch Some by simp
  qed
  show "BaseMapLookup t NaN = None"
    using B(7) [of NaN] ch by simp
  show "j < 64 \<Longrightarrow> BaseMap t j = Some (Number (a ! j))" for j
    using B(5) [of j] ch by simp
  show r: "c \<in> set a \<Longrightarrow> 0x21 \<le> c \<and> c \<le> 0x7e" for c
    using B(8) ch assms(2) by (fastforce simp: in_set_conv_nth)
  show "set (Padding t) \<inter> set a = {}"
  proof (cases "Padding t")
    case Nil
    then show ?thesis by simp
  next
    case (Cons p ps)
    then have ps: "ps = []" using B(10) by simp
    have "index_of a p = None" using B(13) al [of p] Cons ps by simp
    then show ?thesis using Cons ps by (simp add: index_of_None)
  qed
qed

lemma ctor_loop_succeeds:
  "(\<forall>j. i \<le> j \<and> j < 64 \<longrightarrow> fst m (char_at a j) = None
        \<and> \<not> number_less (StringCharCodeAt a j) 0x21
        \<and> \<not> number_greater (StringCharCodeAt a j) 0x7e) \<Longrightarrow>
   (\<forall>j j'. i \<le> j \<and> j < j' \<and> j' < 64 \<longrightarrow> char_at a j \<noteq> char_at a j') \<Longrightarrow>
   \<exists>m'. ctor_loop a i m = Inr m'"
proof (induction a i m rule: ctor_loop.induct)
  case (1 a i al bm bml)
  show ?case
  proof (cases "i < 64")
    case False
    then show ?thesis by (simp add: ctor_loop.simps)
  next
    case True
    let ?c = "char_at a i" and ?n = "StringCharCodeAt a i"
    have free: "al ?c = None" and range: "\<not> (number_less ?n 0x21 \<or> number_greater ?n 0x7e)"
      using "1.prems"(1) True by auto
    have "\<exists>m'. ctor_loop a (i + 1) (al(?c \<mapsto> i), bm(i \<mapsto> ?n), bml(?n \<mapsto> i)) = Inr m'"
    proof (rule "1.IH" [OF True refl _ refl range])
      show "\<not> al ?c \<noteq> None" using free by simp
      show "\<forall>j. i + 1 \<le> j \<and> j < 64 \<longrightarrow>
               fst (al(?c \<mapsto> i), bm(i \<mapsto> ?n), bml(?n \<mapsto> i)) (char_at a j) = None
               \<and> \<not> number_less (StringCharCodeAt a j) 0x21
               \<and> \<not> number_greater (StringCharCodeAt a j) 0x7e"
      proof (intro allI impI)
        fix j assume j: "i + 1 \<le> j \<and> j < 64"
        then have "char_at a i \<noteq> char_at a j"
          using "1.prems"(2) [rule_format, of i j] by simp
        then show "fst (al(?c \<mapsto> i), bm(i \<mapsto> ?n), bml(?n \<mapsto> i)) (char_at a j) = None
               \<and> \<not> number_less (StringCharCodeAt a j) 0x21
               \<and> \<not> number_greater (StringCharCodeAt a j) 0x7e"
          using "1.prems"(1) [rule_format, of j] j by auto
      qed
      show "\<forall>j j'. i + 1 \<le> j \<and> j < j' \<and> j' < 64 \<longrightarrow> char_at a j \<noteq> char_at a j'"
        using "1.prems"(2) by auto
    qed
    then show ?thesis using True free range by (simp add: ctor_loop.simps [of a i] Let_def)
  qed
qed

text \<open>Alphabets of 63 or 64 distinct printable characters pass the constructor's loop.\<close>

lemma Base64Encoding_succeeds:
  assumes "length a = 63 \<or> length a = 64" and "distinct a"
    and "\<forall>c \<in> set a. 0x21 \<le> c \<and> c \<le> 0x7e"
    and "ctor_padding options = Inr (padding, paddingCharCode)" and "set padding \<inter> set a = {}"
  shows "\<exists>t. Base64Encoding a options = Inr t"
proof -
  have ch: "char_at a j = (if j < length a then Str [a ! j] else Undefined)" for j
    by (simp add: char_at_def)
  have "\<exists>m'. ctor_loop a 0 (Map.empty, Map.empty, Map.empty) = Inr m'"
  proof (rule ctor_loop_succeeds)
    show "\<forall>j. 0 \<le> j \<and> j < 64 \<longrightarrow> fst (Map.empty, Map.empty, Map.empty) (char_at a j) = None
        \<and> \<not> number_less (StringCharCodeAt a j) 0x21
        \<and> \<not> number_greater (StringCharCodeAt a j) 0x7e"
      using assms(3) by (auto simp: StringCharCodeAt_def not_less)
    show "\<forall>j j'. 0 \<le> j \<and> j < j' \<and> j' < 64 \<longrightarrow> char_at a j \<noteq> char_at a j'"
      using assms(1,2) by (auto simp: ch distinct_conv_nth)
  qed
  then obtain al bm bml where
    loop: "ctor_loop a 0 (Map.empty, Map.empty, Map.empty) = Inr (al, bm, bml)"
    by (metis prod_cases3)
  have "al (Str padding) = None"
  proof -
    have "\<forall>j. 0 \<le> j \<and> j < 64 \<longrightarrow> char_at a j \<noteq> Str padding"
      using assms(5) by (auto simp: ch)
    then show ?thesis using ctor_loop_Inr [OF loop] by simp
  qed
  then show ?thesis using loop assms(1,4)
    by (auto simp: Base64Encoding_def Let_def)
qed

lemma BASIC_alphabet_codes:
  "BASIC_alphabet = [
     0x41, 0x42, 0x43, 0x44, 0x45, 0x46, 0x47, 0x48, 0x49, 0x4a, 0x4b, 0x4c, 0x4d, 0x4e, 0x4f, 0x50,
     0x51, 0x52, 0x53, 0x54, 0x55, 0x56, 0x57, 0x58, 0x59, 0x5a, 0x61, 0x62, 0x63, 0x64, 0x65, 0x66,
     0x67, 0x68, 0x69, 0x6a, 0x6b, 0x6c, 0x6d, 0x6e, 0x6f, 0x70, 0x71, 0x72, 0x73, 0x74, 0x75, 0x76,
     0x77, 0x78, 0x79, 0x7a, 0x30, 0x31, 0x32, 0x33, 0x34, 0x35, 0x36, 0x37, 0x38, 0x39, 0x2b, 0x2f]"
  by (simp add: BASIC_alphabet_def)

lemma URL_alphabet_codes:
  "URL_alphabet = [
     0x41, 0x42, 0x43, 0x44, 0x45, 0x46, 0x47, 0x48, 0x49, 0x4a, 0x4b, 0x4c, 0x4d, 0x4e, 0x4f, 0x50,
     0x51, 0x52, 0x53, 0x54, 0x55, 0x56, 0x57, 0x58, 0x59, 0x5a, 0x61, 0x62, 0x63, 0x64, 0x65, 0x66,
     0x67, 0x68, 0x69, 0x6a, 0x6b, 0x6c, 0x6d, 0x6e, 0x6f, 0x70, 0x71, 0x72, 0x73, 0x74, 0x75, 0x76,
     0x77, 0x78, 0x79, 0x7a, 0x30, 0x31, 0x32, 0x33, 0x34, 0x35, 0x36, 0x37, 0x38, 0x39, 0x2d, 0x5f]"
  by (simp add: URL_alphabet_def)

lemma BASIC_constructed: "Base64Encoding BASIC_alphabet None = Inr BASIC"
proof -
  have "\<exists>t. Base64Encoding BASIC_alphabet None = Inr t"
  proof (rule Base64Encoding_succeeds)
    show "length BASIC_alphabet = 63 \<or> length BASIC_alphabet = 64"
      by (simp add: BASIC_alphabet_codes)
    show "distinct BASIC_alphabet" by (simp add: BASIC_alphabet_codes)
    show "\<forall>c \<in> set BASIC_alphabet. 0x21 \<le> c \<and> c \<le> 0x7e" by (simp add: BASIC_alphabet_codes)
    show "ctor_padding None = Inr (DEFAULT_PADDING, Some DEFAULT_PADDING_CHAR_CODE)"
      by (simp add: ctor_padding_def)
    show "set DEFAULT_PADDING \<inter> set BASIC_alphabet = {}"
      by (simp add: BASIC_alphabet_codes DEFAULT_PADDING_def)
  qed
  then show ?thesis by (auto simp: BASIC_def)
qed

lemma URL_constructed: "Base64Encoding URL_alphabet (Some \<lparr>opt_padding = Some []\<rparr>) = Inr URL"
proof -
  have "\<exists>t. Base64Encoding URL_alphabet (Some \<lparr>opt_padding = Some []\<rparr>) = Inr t"
  proof (rule Base64Encoding_succeeds)
    show "length URL_alphabet = 63 \<or> length URL_alphabet = 64"
      by (simp add: URL_alphabet_codes)
    show "distinct URL_alphabet" by (simp add: URL_alphabet_codes)
    show "\<forall>c \<in> set URL_alphabet. 0x21 \<le> c \<and> c \<le> 0x7e" by (simp add: URL_alphabet_codes)
    show "ctor_padding (Some \<lparr>opt_padding = Some []\<rparr>) = Inr ([], None)"
      by (simp add: ctor_padding_def)
    show "set [] \<inter> set URL_alphabet = {}"
      by simp
  qed
  then show ?thesis by (auto simp: URL_def)
qed

lemma Base64Encoding_padding:
  "Base64Encoding a options = Inr t \<Longrightarrow> ctor_padding options = Inr (Padding t, PaddingCharCode t)"
  by (auto simp: Base64Encoding_def Let_def split: if_splits sum.splits)

section \<open>The two exported instances, slot by slot\<close>

lemma index_of_map_of:
  "map_option (\<lambda>j. j + n) (index_of xs x) = map_of (zip xs [n..<n + length xs]) x"
proof (induction xs arbitrary: n)
  case Nil
  then show ?case by simp
next
  case (Cons y ys)
  have "[n..<n + length (y # ys)] = n # [Suc n..<Suc n + length ys]"
    using upt_conv_Cons [of n "Suc (n + length ys)"] by simp
  then show ?case
    using Cons.IH [of "Suc n"] by (auto simp: option.map_comp comp_def)
qed

lemma index_of_table: "index_of xs x = map_of (zip xs [0..<length xs]) x"
  using index_of_map_of [of 0 xs x] by (simp add: option.map_ident)

lemma BASIC_table:
  "zip BASIC_alphabet [0..<64] = [
     (0x41, 0), (0x42, 1), (0x43, 2), (0x44, 3), (0x45, 4), (0x46, 5), (0x47, 6), (0x48, 7),
     (0x49, 8), (0x4a, 9), (0x4b, 10), (0x4c, 11), (0x4d, 12), (0x4e, 13), (0x4f, 14), (0x50, 15),
     (0x51, 16), (0x52, 17), (0x53, 18), (0x54, 19), (0x55, 20), (0x56, 21), (0x57, 22), (0x58, 23),
     (0x59, 24), (0x5a, 25), (0x61, 26), (0x62, 27), (0x63, 28), (0x64, 29), (0x65, 30), (0x66, 31),
     (0x67, 32), (0x68, 33), (0x69, 34), (0x6a, 35), (0x6b, 36), (0x6c, 37), (0x6d, 38), (0x6e, 39),
     (0x6f, 40), (0x70, 41), (0x71, 42), (0x72, 43), (0x73, 44), (0x74, 45), (0x75, 46), (0x76, 47),
     (0x77, 48), (0x78, 49), (0x79, 50), (0x7a, 51), (0x30, 52), (0x31, 53), (0x32, 54), (0x33, 55),
     (0x34, 56), (0x35, 57), (0x36, 58), (0x37, 59), (0x38, 60), (0x39, 61), (0x2b, 62), (0x2f, 63)]"
  by (simp add: BASIC_alphabet_codes upt_conv_Cons)

lemma URL_table:
  "zip URL_alphabet [0..<64] = [
     (0x41, 0), (0x42, 1), (0x43, 2), (0x44, 3), (0x45, 4), (0x46, 5), (0x47, 6), (0x48, 7),
     (0x49, 8), (0x4a, 9), (0x4b, 10), (0x4c, 11), (0x4d, 12), (0x4e, 13), (0x4f, 14), (0x50, 15),
     (0x51, 16), (0x52, 17), (0x53, 18), (0x54, 19), (0x55, 20), (0x56, 21), (0x57, 22), (0x58, 23),
     (0x59, 24), (0x5a, 25), (0x61, 26), (0x62, 27), (0x63, 28), (0x64, 29), (0x65, 30), (0x66, 31),
     (0x67, 32), (0x68, 33), (0x69, 34), (0x6a, 35), (0x6b, 36), (0x6c, 37), (0x6d, 38), (0x6e, 39),
     (0x6f, 40), (0x70, 41), (0x71, 42), (0x72, 43), (0x73, 44), (0x74, 45), (0x75, 46), (0x76, 47),
     (0x77, 48), (0x78, 49), (0x79, 50), (0x7a, 51), (0x30, 52), (0x31, 53), (0x32, 54), (0x33, 55),
     (0x34, 56), (0x35, 57), (0x36, 58), (0x37, 59), (0x38, 60), (0x39, 61), (0x2d, 62), (0x5f, 63)]"
  by (simp add: URL_alphabet_codes upt_conv_Cons)

lemma BASIC_slots:
  "Alphabet BASIC = [
     0x41, 0x42, 0x43, 0x44, 0x45, 0x46, 0x47, 0x48, 0x49, 0x4a, 0x4b, 0x4c, 0x4d, 0x4e, 0x4f, 0x50,
     0x51, 0x52, 0x53, 0x54, 0x55, 0x56, 0x57, 0x58, 0x59, 0x5a, 0x61, 0x62, 0x63, 0x64, 0x65, 0x66,
     0x67, 0x68, 0x69, 0x6a, 0x6b, 0x6c, 0x6d, 0x6e, 0x6f, 0x70, 0x71, 0x72, 0x73, 0x74, 0x75, 0x76,
     0x77, 0x78, 0x79, 0x7a, 0x30, 0x31, 0x32, 0x33, 0x34, 0x35, 0x36, 0x37, 0x38, 0x39, 0x2b, 0x2f]"
  "Padding BASIC = [61]"
  "PaddingCharCode BASIC = Some 61"
  "AlphabetLookup BASIC (Str [c]) = map_of [
     (0x41, 0), (0x42, 1), (0x43, 2), (0x44, 3), (0x45, 4), (0x46, 5), (0x47, 6), (0x48, 7),
     (0x49, 8), (0x4a, 9), (0x4b, 10), (0x4c, 11), (0x4d, 12), (0x4e, 13), (0x4f, 14), (0x50, 15),
     (0x51, 16), (0x52, 17), (0x53, 18), (0x54, 19), (0x55, 20), (0x56, 21), (0x57, 22), (0x58, 23),
     (0x59, 24), (0x5a, 25), (0x61, 26), (0x62, 27), (0x63, 28), (0x64, 29), (0x65, 30), (0x66, 31),
     (0x67, 32), (0x68, 33), (0x69, 34), (0x6a, 35), (0x6b, 36), (0x6c, 37), (0x6d, 38), (0x6e, 39),
     (0x6f, 40), (0x70, 41), (0x71, 42), (0x72, 43), (0x73, 44), (0x74, 45), (0x75, 46), (0x76, 47),
     (0x77, 48), (0x78, 49), (0x79, 50), (0x7a, 51), (0x30, 52), (0x31, 53), (0x32, 54), (0x33, 55),
     (0x34, 56), (0x35, 57), (0x36, 58), (0x37, 59), (0x38, 60), (0x39, 61), (0x2b, 62), (0x2f, 63)] c"
  "BaseMapLookup BASIC (Number c) = map_of [
     (0x41, 0), (0x42, 1), (0x43, 2), (0x44, 3), (0x45, 4), (0x46, 5), (0x47, 6), (0x48, 7),
     (0x49, 8), (0x4a, 9), (0x4b, 10), (0x4c, 11), (0x4d, 12), (0x4e, 13), (0x4f, 14), (0x50, 15),
     (0x51, 16), (0x52, 17), (0x53, 18), (0x54, 19), (0x55, 20), (0x56, 21), (0x57, 22), (0x58, 23),
     (0x59, 24), (0x5a, 25), (0x61, 26), (0x62, 27), (0x63, 28), (0x64, 29), (0x65, 30), (0x66, 31),
     (0x67, 32), (0x68, 33), (0x69, 34), (0x6a, 35), (0x6b, 36), (0x6c, 37), (0x6d, 38), (0x6e, 39),
     (0x6f, 40), (0x70, 41), (0x71, 42), (0x72, 43), (0x73, 44), (0x74, 45), (0x75, 46), (0x76, 47),
     (0x77, 48), (0x78, 49), (0x79, 50), (0x7a, 51), (0x30, 52), (0x31, 53), (0x32, 54), (0x33, 55),
     (0x34, 56), (0x35, 57), (0x36, 58), (0x37, 59), (0x38, 60), (0x39, 61), (0x2b, 62), (0x2f, 63)] c"
  "j < 64 \<Longrightarrow> BaseMap BASIC j = Some (Number ([
     0x41, 0x42, 0x43, 0x44, 0x45, 0x46, 0x47, 0x48, 0x49, 0x4a, 0x4b, 0x4c, 0x4d, 0x4e, 0x4f, 0x50,
     0x51, 0x52, 0x53, 0x54, 0x55, 0x56, 0x57, 0x58, 0x59, 0x5a, 0x61, 0x62, 0x63, 0x64, 0x65, 0x66,
     0x67, 0x68, 0x69, 0x6a, 0x6b, 0x6c, 0x6d, 0x6e, 0x6f, 0x70, 0x71, 0x72, 0x73, 0x74, 0x75, 0x76,
     0x77, 0x78, 0x79, 0x7a, 0x30, 0x31, 0x32, 0x33, 0x34, 0x35, 0x36, 0x37, 0x38, 0x39, 0x2b, 0x2f] ! j))"
proof -
  have len: "length BASIC_alphabet = 64" by (simp add: BASIC_alphabet_codes)
  note B = Base64Encoding_64 [OF BASIC_constructed len]
  show "Alphabet BASIC = [
     0x41, 0x42, 0x43, 0x44, 0x45, 0x46, 0x47, 0x48, 0x49, 0x4a, 0x4b, 0x4c, 0x4d, 0x4e, 0x4f, 0x50,
     0x51, 0x52, 0x53, 0x54, 0x55, 0x56, 0x57, 0x58, 0x59, 0x5a, 0x61, 0x62, 0x63, 0x64, 0x65, 0x66,
     0x67, 0x68, 0x69, 0x6a, 0x6b, 0x6c, 0x6d, 0x6e, 0x6f, 0x70, 0x71, 0x72, 0x73, 0x74, 0x75, 0x76,
     0x77, 0x78, 0x79, 0x7a, 0x30, 0x31, 0x32, 0x33, 0x34, 0x35, 0x36, 0x37, 0x38, 0x39, 0x2b, 0x2f]"
    using Base64Encoding_Inr(1) [OF BASIC_constructed] by (simp add: BASIC_alphabet_codes)
  show "Padding BASIC = [61]" "PaddingCharCode BASIC = Some 61"
    using Base64Encoding_padding [OF BASIC_constructed]
    by (simp_all add: ctor_padding_def DEFAULT_PADDING_def DEFAULT_PADDING_CHAR_CODE_def)
  show "AlphabetLookup BASIC (Str [c]) = map_of [
     (0x41, 0), (0x42, 1), (0x43, 2), (0x44, 3), (0x45, 4), (0x46, 5), (0x47, 6), (0x48, 7),
     (0x49, 8), (0x4a, 9), (0x4b, 10), (0x4c, 11), (0x4d, 12), (0x4e, 13), (0x4f, 14), (0x50, 15),
     (0x51, 16), (0x52, 17), (0x53, 18), (0x54, 19), (0x55, 20), (0x56, 21), (0x57, 22), (0x58, 23),
     (0x59, 24), (0x5a, 25), (0x61, 26), (0x62, 27), (0x63, 28), (0x64, 29), (0x65, 30), (0x66, 31),
     (0x67, 32), (0x68, 33), (0x69, 34), (0x6a, 35), (0x6b, 36), (0x6c, 37), (0x6d, 38), (0x6e, 39),
     (0x6f, 40), (0x70, 41), (0x71, 42), (0x72, 43), (0x73, 44), (0x74, 45), (0x75, 46), (0x76, 47),
     (0x77, 48), (0x78, 49), (0x79, 50), (0x7a, 51), (0x30, 52), (0x31, 53), (0x32, 54), (0x33, 55),
     (0x34, 56), (0x35, 57), (0x36, 58), (0x37, 59), (0x38, 60), (0x39, 61), (0x2b, 62), (0x2f, 63)] c"
    using B(2) [of c] len BASIC_table by (simp add: index_of_table)
  show "BaseMapLookup BASIC (Number c) = map_of [
     (0x41, 0), (0x42, 1), (0x43, 2), (0x44, 3), (0x45, 4), (0x46, 5), (0x47, 6), (0x48, 7),
     (0x49, 8), (0x4a, 9), (0x4b, 10), (0x4c, 11), (0x4d, 12), (0x4e, 13), (0x4f, 14), (0x50, 15),
     (0x51, 16), (0x52, 17), (0x53, 18), (0x54, 19), (0x55, 20), (0x56, 21), (0x57, 22), (0x58, 23),
     (0x59, 24), (0x5a, 25), (0x61, 26), (0x62, 27), (0x63, 28), (0x64, 29), (0x65, 30), (0x66, 31),
     (0x67, 32), (0x68, 33), (0x69, 34), (0x6a, 35), (0x6b, 36), (0x6c, 37), (0x6d, 38), (0x6e, 39),
     (0x6f, 40), (0x70, 41), (0x71, 42), (0x72, 43), (0x73, 44), (0x74, 45), (0x75, 46), (0x76, 47),
     (0x77, 48), (0x78, 49), (0x79, 50), (0x7a, 51), (0x30, 52), (0x31, 53), (0x32, 54), (0x33, 55),
     (0x34, 56), (0x35, 57), (0x36, 58), (0x37, 59), (0x38, 60), (0x39, 61), (0x2b, 62), (0x2f, 63)] c"
    using B(3) [of c] len BASIC_table by (simp add: index_of_table)
  show "j < 64 \<Longrightarrow> BaseMap BASIC j = Some (Number ([
     0x41, 0x42, 0x43, 0x44, 0x45, 0x46, 0x47, 0x48, 0x49, 0x4a, 0x4b, 0x4c, 0x4d, 0x4e, 0x4f, 0x50,
     0x51, 0x52, 0x53, 0x54, 0x55, 0x56, 0x57, 0x58, 0x59, 0x5a, 0x61, 0x62, 0x63, 0x64, 0x65, 0x66,
     0x67, 0x68, 0x69, 0x6a, 0x6b, 0x6c, 0x6d, 0x6e, 0x6f, 0x70, 0x71, 0x72, 0x73, 0x74, 0x75, 0x76,
     0x77, 0x78, 0x79, 0x7a, 0x30, 0x31, 0x32, 0x33, 0x34, 0x35, 0x36, 0x37, 0x38, 0x39, 0x2b, 0x2f] ! j))"
    using B(5) [of j] by (simp add: BASIC_alphabet_codes)
qed

lemma URL_slots:
  "Alphabet URL = [
     0x41, 0x42, 0x43, 0x44, 0x45, 0x46, 0x47, 0x48, 0x49, 0x4a, 0x4b, 0x4c, 0x4d, 0x4e, 0x4f, 0x50,
     0x51, 0x52, 0x53, 0x54, 0x55, 0x56, 0x57, 0x58, 0x59, 0x5a, 0x61, 0x62, 0x63, 0x64, 0x65, 0x66,
     0x67, 0x68, 0x69, 0x6a, 0x6b, 0x6c, 0x6d, 0x6e, 0x6f, 0x70, 0x71, 0x72, 0x73, 0x74, 0x75, 0x76,
     0x77, 0x78, 0x79, 0x7a, 0x30, 0x31, 0x32, 0x33, 0x34, 0x35, 0x36, 0x37, 0x38, 0x39, 0x2d, 0x5f]"
  "Padding URL = []"
  "PaddingCharCode URL = None"
  "AlphabetLookup URL (Str [c]) = map_of [
     (0x41, 0), (0x42, 1), (0x43, 2), (0x44, 3), (0x45, 4), (0x46, 5), (0x47, 6), (0x48, 7),
     (0x49, 8), (0x4a, 9), (0x4b, 10), (0x4c, 11), (0x4d, 12), (0x4e, 13), (0x4f, 14), (0x50, 15),
     (0x51, 16), (0x52, 17), (0x53, 18), (0x54, 19), (0x55, 20), (0x56, 21), (0x57, 22), (0x58, 23),
     (0x59, 24), (0x5a, 25), (0x61, 26), (0x62, 27), (0x63, 28), (0x64, 29), (0x65, 30), (0x66, 31),
     (0x67, 32), (0x68, 33), (0x69, 34), (0x6a, 35), (0x6b, 36), (0x6c, 37), (0x6d, 38), (0x6e, 39),
     (0x6f, 40), (0x70, 41), (0x71, 42), (0x72, 43), (0x73, 44), (0x74, 45), (0x75, 46), (0x76, 47),
     (0x77, 48), (0x78, 49), (0x79, 50), (0x7a, 51), (0x30, 52), (0x31, 53), (0x32, 54), (0x33, 55),
     (0x34, 56), (0x35, 57), (0x36, 58), (0x37, 59), (0x38, 60), (0x39, 61), (0x2d, 62), (0x5f, 63)] c"
  "BaseMapLookup URL (Number c) = map_of [
     (0x41, 0), (0x42, 1), (0x43, 2), (0x44, 3), (0x45, 4), (0x46, 5), (0x47, 6), (0x48, 7),
     (0x49, 8), (0x4a, 9), (0x4b, 10), (0x4c, 11), (0x4d, 12), (0x4e, 13), (0x4f, 14), (0x50, 15),
     (0x51, 16), (0x52, 17), (0x53, 18), (0x54, 19), (0x55, 20), (0x56, 21), (0x57, 22), (0x58, 23),
     (0x59, 24), (0x5a, 25), (0x61, 26), (0x62, 27), (0x63, 28), (0x64, 29), (0x65, 30), (0x66, 31),
     (0x67, 32), (0x68, 33), (0x69, 34), (0x6a, 35), (0x6b, 36), (0x6c, 37), (0x6d, 38), (0x6e, 39),
     (0x6f, 40), (0x70, 41), (0x71, 42), (0x72, 43), (0x73, 44), (0x74, 45), (0x75, 46), (0x76, 47),
     (0x77, 48), (0x78, 49), (0x79, 50), (0x7a, 51), (0x30, 52), (0x31, 53), (0x32, 54), (0x33, 55),
     (0x34, 56), (0x35, 57), (0x36, 58), (0x37, 59), (0x38, 60), (0x39, 61), (0x2d, 62), (0x5f, 63)] c"
  "j < 64 \<Longrightarrow> BaseMap URL j = Some (Number ([
     0x41, 0x42, 0x43, 0x44, 0x45, 0x46, 0x47, 0x48, 0x49, 0x4a, 0x4b, 0x4c, 0x4d, 0x4e, 0x4f, 0x50,
     0x51, 0x52, 0x53, 0x54, 0x55, 0x56, 0x57, 0x58, 0x59, 0x5a, 0x61, 0x62, 0x63, 0x64, 0x65, 0x66,
     0x67, 0x68, 0x69, 0x6a, 0x6b, 0x6c, 0x6d, 0x6e, 0x6f, 0x70, 0x71, 0x72, 0x73, 0x74, 0x75, 0x76,
     0x77, 0x78, 0x79, 0x7a, 0x30, 0x31, 0x32, 0x33, 0x34, 0x35, 0x36, 0x37, 0x38, 0x39, 0x2d, 0x5f] ! j))"
proof -
  have len: "length URL_alphabet = 64" by (simp add: URL_alphabet_codes)
  note B = Base64Encoding_64 [OF URL_constructed len]
  show "Alphabet URL = [
     0x41, 0x42, 0x43, 0x44, 0x45, 0x46, 0x47, 0x48, 0x49, 0x4a, 0x4b, 0x4c, 0x4d, 0x4e, 0x4f, 0x50,
     0x51, 0x52, 0x53, 0x54, 0x55, 0x56, 0x57, 0x58, 0x59, 0x5a, 0x61, 0x62, 0x63, 0x64, 0x65, 0x66,
     0x67, 0x68, 0x69, 0x6a, 0x6b, 0x6c, 0x6d, 0x6e, 0x6f, 0x70, 0x71, 0x72, 0x73, 0x74, 0x75, 0x76,
     0x77, 0x78, 0x79, 0x7a, 0x30, 0x31, 0x32, 0x33, 0x34, 0x35, 0x36, 0x37, 0x38, 0x39, 0x2d, 0x5f]"
    using Base64Encoding_Inr(1) [OF URL_constructed] by (simp add: URL_alphabet_codes)
  show "Padding URL = []" "PaddingCharCode URL = None"
    using Base64Encoding_padding [OF URL_constructed]
    by (simp_all add: ctor_padding_def DEFAULT_PADDING_def DEFAULT_PADDING_CHAR_CODE_def)
  show "AlphabetLookup URL (Str [c]) = map_of [
     (0x41, 0), (0x42, 1), (0x43, 2), (0x44, 3), (0x45, 4), (0x46, 5), (0x47, 6), (0x48, 7),
     (0x49, 8), (0x4a, 9), (0x4b, 10), (0x4c, 11), (0x4d, 12), (0x4e, 13), (0x4f, 14), (0x50, 15),
     (0x51, 16), (0x52, 17), (0x53, 18), (0x54, 19), (0x55, 20), (0x56, 21), (0x57, 22), (0x58, 23),
     (0x59, 24), (0x5a, 25), (0x61, 26), (0x62, 27), (0x63, 28), (0x64, 29), (0x65, 30), (0x66, 31),
     (0x67, 32), (0x68, 33), (0x69, 34), (0x6a, 35), (0x6b, 36), (0x6c, 37), (0x6d, 38), (0x6e, 39),
     (0x6f, 40), (0x70, 41), (0x71, 42), (0x72, 43), (0x73, 44), (0x74, 45), (0x75, 46), (0x76, 47),
     (0x77, 48), (0x78, 49), (0x79, 50), (0x7a, 51), (0x30, 52), (0x31, 53), (0x32, 54), (0x33, 55),
     (0x34, 56), (0x35, 57), (0x36, 58), (0x37, 59), (0x38, 60), (0x39, 61), (0x2d, 62), (0x5f, 63)] c"
    using B(2) [of c] len URL_table by (simp add: index_of_table)
  show "BaseMapLookup URL (Number c) = map_of [
     (0x41, 0), (0x42, 1), (0x43, 2), (0x44, 3), (0x45, 4), (0x46, 5), (0x47, 6), (0x48, 7),
     (0x49, 8), (0x4a, 9), (0x4b, 10), (0x4c, 11), (0x4d, 12), (0x4e, 13), (0x4f, 14), (0x50, 15),
     (0x51, 16), (0x52, 17), (0x53, 18), (0x54, 19), (0x55, 20), (0x56, 21), (0x57, 22), (0x58, 23),
     (0x59, 24), (0x5a, 25), (0x61, 26), (0x62, 27), (0x63, 28), (0x64, 29), (0x65, 30), (0x66, 31),
     (0x67, 32), (0x68, 33), (0x69, 34), (0x6a, 35), (0x6b, 36), (0x6c, 37), (0x6d, 38), (0x6e, 39),
     (0x6f, 40), (0x70, 41), (0x71, 42), (0x72, 43), (0x73, 44), (0x74, 45), (0x75, 46), (0x76, 47),
     (0x77, 48), (0x78, 49), (0x79, 50), (0x7a, 51), (0x30, 52), (0x31, 53), (0x32, 54), (0x33, 55),
     (0x34, 56), (0x35, 57), (0x36, 58), (0x37, 59), (0x38, 60), (0x39, 61), (0x2d, 62), (0x5f, 63)] c"
    using B(3) [of c] len URL_table by (simp add: index_of_table)
  show "j < 64 \<Longrightarrow> BaseMap URL j = Some (Number ([
     0x41, 0x42, 0x43, 0x44, 0x45, 0x46, 0x47, 0x48, 0x49, 0x4a, 0x4b, 0x4c, 0x4d, 0x4e, 0x4f, 0x50,
     0x51, 0x52, 0x53, 0x54, 0x55, 0x56, 0x57, 0x58, 0x59, 0x5a, 0x61, 0x62, 0x63, 0x64, 0x65, 0x66,
     0x67, 0x68, 0x69, 0x6a, 0x6b, 0x6c, 0x6d, 0x6e, 0x6f, 0x70, 0x71, 0x72, 0x73, 0x74, 0x75, 0x76,
     0x77, 0x78, 0x79, 0x7a, 0x30, 0x31, 0x32, 0x33, 0x34, 0x35, 0x36, 0x37, 0x38, 0x39, 0x2d, 0x5f] ! j))"
    using B(5) [of j] by (simp add: URL_alphabet_codes)
qed

text \<open>The equations that run the model on a concrete input.\<close>

lemma replicate_run: "replicate n x = (if n = 0 then [] else x # replicate (n - 1) x)"
  by (cases n) simp_all

lemmas run_simps =
  StringCharCodeAt_def char_at_def table_at_def Uint8At_def MapGet_byte_def
  padding_or_nul_def paddingCharCode_or_0_def StringFromCharCode_def
  ENCODING_SHIFTS_def ENCODING_MASKS_def ENCODING_DIGITS_def
  DECODING_SHIFTS_def DECODING_MASKS_def DECODING_DIGITS_def
  GetEncodingBytes_def GetDecodingBytes_def GetPaddedLength_def GetCapacity_def
  GetInverseCapacity_def Let_def
  Encode_inner.simps Encode_loop.simps pad_string.simps Encode_def
  EncodeToBytes_inner.simps EncodeToBytes_loop.simps pad_bytes.simps pad_result_def
  EncodeToBytes_def
  EncodeBytes_inner.simps EncodeBytes_loop.simps EncodeBytes_def
  EncodeBytesToString_inner.simps EncodeBytesToString_loop.simps EncodeBytesToString_def
  skip_padding.simps DecodeToBytes_inner.simps DecodeToBytes_loop.simps DecodeToBytes_def
  Decode_inner.simps Decode_loop.simps Decode_def
  encode_def encodeToBytes_def encodeBytes_def encodeBytesToString_def
  decode_flags_def decode_def decodeToBytes_def
  replicate_run

section \<open>Concrete vectors\<close>

text \<open>
  C6. With the basic instance, the bytes 4D 61 6E encode to "TWFu"; the bytes 4D 61 encode to
  "TWE=" with padding and to "TWE" without; and "TWE=" decodes to the bytes 4D 61. The
  statement gives each vector through the method with its options and through the function
  the method calls.
\<close>

theorem C6_concrete_vectors:
  "encodeBytesToString BASIC [0x4D, 0x61, 0x6E] None = str ''TWFu''
   \<and> encodeBytesToString BASIC [0x4D, 0x61] (Some \<lparr>opt_withPadding = Some True\<rparr>) = str ''TWE=''
   \<and> encodeBytesToString BASIC [0x4D, 0x61] (Some \<lparr>opt_withPadding = Some False\<rparr>) = str ''TWE''
   \<and> decodeToBytes BASIC (str ''TWE='') None = Inr [0x4D, 0x61]
   \<and> EncodeBytesToString BASIC [0x4D, 0x61, 0x6E] True = str ''TWFu''
   \<and> EncodeBytesToString BASIC [0x4D, 0x61] True = str ''TWE=''
   \<and> EncodeBytesToString BASIC [0x4D, 0x61] False = str ''TWE''
   \<and> DecodeToBytes BASIC (str ''TWE='') False False = Inr [0x4D, 0x61]"
  by (simp add: run_simps BASIC_slots)

text \<open>
  C5. With the basic instance, "AAAA==" decodes to three zero bytes; "AAAA==" followed by
  "AAAA==" decodes, when concatenation is allowed, to those three bytes twice, and when it is
  not allowed to the three bytes of the first segment only (no error). The same holds for
  the decoder with string output.
\<close>

theorem C5_concatenation:
  "decodeToBytes BASIC (str ''AAAA=='') None = Inr [0, 0, 0]
   \<and> decodeToBytes BASIC (str ''AAAA=='' @ str ''AAAA=='')
         (Some \<lparr>opt_ignorePadding = None, opt_allowConcatenation = Some True\<rparr>)
       = Inr ([0, 0, 0] @ [0, 0, 0])
   \<and> decodeToBytes BASIC (str ''AAAA=='' @ str ''AAAA=='')
         (Some \<lparr>opt_ignorePadding = None, opt_allowConcatenation = Some False\<rparr>)
       = Inr [0, 0, 0]
   \<and> decode BASIC (str ''AAAA=='') None = Inr [0, 0, 0]
   \<and> decode BASIC (str ''AAAA=='' @ str ''AAAA=='')
         (Some \<lparr>opt_ignorePadding = None, opt_allowConcatenation = Some True\<rparr>)
       = Inr ([0, 0, 0] @ [0, 0, 0])
   \<and> decode BASIC (str ''AAAA=='' @ str ''AAAA=='')
         (Some \<lparr>opt_ignorePadding = None, opt_allowConcatenation = Some False\<rparr>)
       = Inr [0, 0, 0]"
  by (simp add: run_simps BASIC_slots)

text \<open>
  C1, at an input where the round trip fails. The URL-safe instance has no padding; with its
  default options the single byte 4D encodes to "TQ", and "TQ" decodes to the two bytes 4D 00:
  after the two symbols of the last group the decoder stores the carry as one more byte. The
  basic instance does the same when padding is switched off on both sides.
\<close>

theorem C1_roundtrip_without_padding:
  "encodeBytesToString URL [0x4D] None = str ''TQ''
   \<and> decodeToBytes URL (encodeBytesToString URL [0x4D] None) None = Inr [0x4D, 0x00]
   \<and> DecodeToBytes URL (EncodeBytesToString URL [0x4D] False) True False = Inr [0x4D, 0x00]
   \<and> DecodeToBytes BASIC (EncodeBytesToString BASIC [0x4D] False) True False = Inr [0x4D, 0x00]"
  by (simp add: run_simps BASIC_slots URL_slots)

text \<open>
  C3, at an input where the constructor does not fail. An alphabet of 63 distinct printable
  characters passes the length check (which only refuses 0 and more than 64); in the loop the
  64th character is \<^verbatim>\<open>undefined\<close> with code \<^verbatim>\<open>NaN\<close>, which is in no table yet and fails neither
  range comparison, so the instance is created, with \<^verbatim>\<open>undefined\<close> as its symbol 63.
\<close>

theorem C3_alphabet_of_63_accepted:
  "length (str ''ABCDEFGHIJKLMNOPQRSTUVWXYZabcdefghijklmnopqrstuvwxyz0123456789+'') = 63
   \<and> (\<exists>t. Base64Encoding (str ''ABCDEFGHIJKLMNOPQRSTUVWXYZabcdefghijklmnopqrstuvwxyz0123456789+'') None
           = Inr t
         \<and> AlphabetLookup t Undefined = Some 63 \<and> BaseMap t 63 = Some NaN)"
proof -
  let ?a = "str ''ABCDEFGHIJKLMNOPQRSTUVWXYZabcdefghijklmnopqrstuvwxyz0123456789+''"
  have len: "length ?a = 63" by simp
  have "\<exists>t. Base64Encoding ?a None = Inr t"
  proof (rule Base64Encoding_succeeds)
    show "length ?a = 63 \<or> length ?a = 64" by simp
    show "distinct ?a" by simp
    show "\<forall>c \<in> set ?a. 0x21 \<le> c \<and> c \<le> 0x7e" by simp
    show "ctor_padding None = Inr (DEFAULT_PADDING, Some DEFAULT_PADDING_CHAR_CODE)"
      by (simp add: ctor_padding_def)
    show "set DEFAULT_PADDING \<inter> set ?a = {}" by (simp add: DEFAULT_PADDING_def)
  qed
  then obtain t where t: "Base64Encoding ?a None = Inr t" ..
  have "char_at ?a 63 = Undefined" "StringCharCodeAt ?a 63 = NaN"
    by (simp_all add: char_at_def StringCharCodeAt_def)
  then have "AlphabetLookup t Undefined = Some 63" "BaseMap t 63 = Some NaN"
    using Base64Encoding_Inr(3) [OF t, of 63] Base64Encoding_Inr(5) [OF t, of 63] by simp_all
  with t len show ?thesis by blast
qed

section \<open>The default of \<^verbatim>\<open>withPadding\<close>\<close>

text \<open>
  C4, as stated, fails on the byte-output encoders. The basic instance has the padding "=",
  yet \<^verbatim>\<open>encodeBytes\<close> and \<^verbatim>\<open>encodeToBytes\<close> called without options do not pad: the byte 4D
  gives the two symbols "TQ", where \<^verbatim>\<open>encodeBytesToString\<close> gives "TQ==".
\<close>

theorem C4_byte_output_default_counterexample:
  "Padding BASIC = str ''=''
   \<and> encodeBytes BASIC [0x4D] None = [84, 81]
   \<and> encodeBytes BASIC [0x4D] None \<noteq> EncodeBytes BASIC [0x4D] (Padding BASIC \<noteq> [])
   \<and> encodeToBytes BASIC [0x4D] None = Inr [84, 81]
   \<and> encodeToBytes BASIC [0x4D] None \<noteq> EncodeToBytes BASIC [0x4D] (Padding BASIC \<noteq> [])
   \<and> encodeBytesToString BASIC [0x4D] None = str ''TQ==''"
  by (simp add: run_simps BASIC_slots)

text \<open>
  C4, amended. Every encode variant takes \<^verbatim>\<open>withPadding\<close> from its options when it is given.
  When it is omitted (no options, or options without the field), the variants with string
  output (\<^verbatim>\<open>encode\<close>, \<^verbatim>\<open>encodeBytesToString\<close>, \<^verbatim>\<open>encodeText\<close>) pad exactly when the instance
  has a padding symbol, and the variants with byte output (\<^verbatim>\<open>encodeToBytes\<close>,
  \<^verbatim>\<open>encodeBytes\<close>, \<^verbatim>\<open>encodeTextToBytes\<close>) do not pad.
\<close>

theorem C4_withPadding_defaults:
  "encode t s (Some \<lparr>opt_withPadding = Some w\<rparr>) = Encode t s w
   \<and> encodeBytesToString t b (Some \<lparr>opt_withPadding = Some w\<rparr>) = EncodeBytesToString t b w
   \<and> encodeText utf8 t s (Some \<lparr>opt_withPadding = Some w\<rparr>) = EncodeText utf8 t s w
   \<and> encodeToBytes t s (Some \<lparr>opt_withPadding = Some w\<rparr>) = EncodeToBytes t s w
   \<and> encodeBytes t b (Some \<lparr>opt_withPadding = Some w\<rparr>) = EncodeBytes t b w
   \<and> encodeTextToBytes utf8 t s (Some \<lparr>opt_withPadding = Some w\<rparr>) = EncodeTextToBytes utf8 t s w
   \<and> encode t s None = Encode t s (Padding t \<noteq> [])
   \<and> encode t s (Some \<lparr>opt_withPadding = None\<rparr>) = Encode t s (Padding t \<noteq> [])
   \<and> encodeBytesToString t b None = EncodeBytesToString t b (Padding t \<noteq> [])
   \<and> encodeBytesToString t b (Some \<lparr>opt_withPadding = None\<rparr>)
       = EncodeBytesToString t b (Padding t \<noteq> [])
   \<and> encodeText utf8 t s None = EncodeText utf8 t s (Padding t \<noteq> [])
   \<and> encodeText utf8 t s (Some \<lparr>opt_withPadding = None\<rparr>) = EncodeText utf8 t s (Padding t \<noteq> [])
   \<and> encodeToBytes t s None = EncodeToBytes t s False
   \<and> encodeToBytes t s (Some \<lparr>opt_withPadding = None\<rparr>) = EncodeToBytes t s False
   \<and> encodeBytes t b None = EncodeBytes t b False
   \<and> encodeBytes t b (Some \<lparr>opt_withPadding = None\<rparr>) = EncodeBytes t b False
   \<and> encodeTextToBytes utf8 t s None = EncodeTextToBytes utf8 t s False
   \<and> encodeTextToBytes utf8 t s (Some \<lparr>opt_withPadding = None\<rparr>) = EncodeTextToBytes utf8 t s False"
  by (simp add: encode_def encodeBytesToString_def encodeText_def encodeToBytes_def
      encodeBytes_def encodeTextToBytes_def)

section \<open>Integers: decoding\<close>

lemma count_leadingZeros_bounds:
  "n \<le> count_leadingZeros z s n
   \<and> (n \<le> length s \<longrightarrow> count_leadingZeros z s n \<le> length s)
   \<and> (\<forall>k. n \<le> k \<and> k < count_leadingZeros z s n \<longrightarrow> char_at s k = z)"
proof (induction z s n rule: count_leadingZeros.induct)
  case (1 z s n)
  show ?case
  proof (cases "n < length s \<and> char_at s n = z")
    case True
    then have eq: "count_leadingZeros z s n = count_leadingZeros z s (n + 1)"
      by (simp add: count_leadingZeros.simps [of z s n])
    note IH = "1.IH" [OF True]
    have "char_at s k = z" if "n \<le> k" "k < count_leadingZeros z s (n + 1)" for k
    proof (cases "k = n")
      case True
      then show ?thesis using \<open>n < length s \<and> char_at s n = z\<close> by simp
    next
      case False
      then have "n + 1 \<le> k" using that by simp
      then show ?thesis using IH that by blast
    qed
    moreover have "n \<le> count_leadingZeros z s (n + 1)" using IH by simp
    moreover have "count_leadingZeros z s (n + 1) \<le> length s" using IH True by simp
    ultimately show ?thesis unfolding eq by blast
  next
    case False
    then show ?thesis by (auto simp: count_leadingZeros.simps [of z s n])
  qed
qed

lemma DecodeInt_loop_NaN:
  "i \<le> k \<Longrightarrow> k < length s \<Longrightarrow> AlphabetLookup t (char_at s k) = None
     \<Longrightarrow> DecodeInt_loop t s i r = NaN"
proof (induction t s i r rule: DecodeInt_loop.induct)
  case (1 t s i r)
  then have i: "i < length s" by simp
  show ?case
  proof (cases "AlphabetLookup t (char_at s i)")
    case None
    then show ?thesis using i by (simp add: DecodeInt_loop.simps [of t s i])
  next
    case (Some d)
    then have "i \<noteq> k" using "1.prems" by auto
    then have "i + 1 \<le> k" using "1.prems" by simp
    then show ?thesis
      using "1.IH" [OF i refl Some] "1.prems" Some i
      by (simp add: DecodeInt_loop.simps [of t s i])
  qed
qed

lemma DecodeBigInt_loop_eq:
  "DecodeBigInt_loop t s i r =
     (case DecodeInt_loop t s i r of
        NaN \<Rightarrow> Inl (RangeError ''Invalid Base64 encoded integer'')
      | Number v \<Rightarrow> Inr v)"
proof (induction t s i r rule: DecodeInt_loop.induct)
  case (1 t s i r)
  show ?case
  proof (cases "i < length s")
    case False
    then show ?thesis
      by (simp add: DecodeInt_loop.simps [of t s i] DecodeBigInt_loop.simps [of t s i])
  next
    case True
    show ?thesis
    proof (cases "AlphabetLookup t (char_at s i)")
      case None
      then show ?thesis using True
        by (simp add: DecodeInt_loop.simps [of t s i] DecodeBigInt_loop.simps [of t s i])
    next
      case (Some d)
      then show ?thesis using True "1.IH" [OF True refl Some]
        by (simp add: DecodeInt_loop.simps [of t s i] DecodeBigInt_loop.simps [of t s i])
    qed
  qed
qed

lemma DecodeBigInt_eq:
  "s \<noteq> [] \<Longrightarrow> DecodeBigInt t s =
     (case DecodeInt t s of
        NaN \<Rightarrow> Inl (RangeError ''Invalid Base64 encoded integer'')
      | Number v \<Rightarrow> Inr v)"
  by (simp add: DecodeBigInt_def DecodeInt_def DecodeBigInt_loop_eq Let_def)

lemma DecodeInt_unrecognized:
  assumes "Base64Encoding a options = Inr t" and "c \<in> set s" and "c \<notin> set a"
  shows "DecodeInt t s = NaN"
proof -
  note B = Base64Encoding_Inr [OF assms(1)]
  from assms(2) obtain k where k: "k < length s" "s ! k = c"
    by (auto simp: in_set_conv_nth)
  have "\<forall>j<64. char_at a j \<noteq> Str [c]"
    using assms(3) by (auto simp: char_at_def)
  then have none: "AlphabetLookup t (char_at s k) = None"
    using B(4) k by (simp add: char_at_def)
  let ?z = "char_at (Alphabet t) 0"
  let ?lz = "count_leadingZeros ?z s 0"
  have "AlphabetLookup t ?z = Some 0" using B(1) B(3) [of 0] by simp
  then have "char_at s k \<noteq> ?z" using none by auto
  then have "\<not> k < ?lz"
    using count_leadingZeros_bounds [of 0 ?z s] by auto
  then have "DecodeInt_loop t s ?lz 0 = NaN"
    using DecodeInt_loop_NaN [of ?lz k s t 0] k none by simp
  then show ?thesis using k by (auto simp: DecodeInt_def Let_def)
qed

text \<open>
  C8. For every instance the constructor returns and every input that contains a symbol
  outside the alphabet, the fixed-width decoder returns \<^verbatim>\<open>NaN\<close> and the arbitrary-precision
  decoder raises a \<^verbatim>\<open>RangeError\<close>.
\<close>

theorem C8_unrecognized_symbol:
  assumes "Base64Encoding a options = Inr t" and "c \<in> set s" and "c \<notin> set a"
  shows "decodeInt t (Str s) = NaN
    \<and> decodeBigInt t (Str s) = Inl (RangeError ''Invalid Base64 encoded integer'')"
proof -
  have "DecodeInt t s = NaN" using assms by (rule DecodeInt_unrecognized)
  moreover have "s \<noteq> []" using assms(2) by auto
  ultimately show ?thesis
    by (simp add: decodeInt_def decodeBigInt_def DecodeBigInt_eq)
qed

theorem C8_unrecognized_symbol_witness:
  "Base64Encoding BASIC_alphabet None = Inr BASIC
   \<and> 0x3d \<in> set (str ''AAB='') \<and> 0x3d \<notin> set BASIC_alphabet
   \<and> decodeInt BASIC (Str (str ''AAB='')) = NaN
   \<and> decodeBigInt BASIC (Str (str ''AAB='')) = Inl (RangeError ''Invalid Base64 encoded integer'')"
proof -
  have h: "0x3d \<in> set (str ''AAB='')" "0x3d \<notin> set BASIC_alphabet"
    by (simp_all add: BASIC_alphabet_codes)
  show ?thesis
    using C8_unrecognized_symbol [OF BASIC_constructed h] BASIC_constructed h by simp
qed

section \<open>Integers: the round trip\<close>

text \<open>The value of a digit string read from the left, starting from an accumulator; \<open>None\<close>
  when a symbol is not in the lookup table.\<close>

fun digits_value :: "base64 \<Rightarrow> jsstring \<Rightarrow> nat \<Rightarrow> nat option" where
  "digits_value t [] r = Some r"
| "digits_value t (x # xs) r =
     (case AlphabetLookup t (Str [x]) of
        None \<Rightarrow> None
      | Some d \<Rightarrow> digits_value t xs (r * 64 + d))"

lemma digits_value_append:
  "digits_value t (xs @ ys) r =
     (case digits_value t xs r of None \<Rightarrow> None | Some v \<Rightarrow> digits_value t ys v)"
  by (induction xs arbitrary: r) (auto split: option.splits)

lemma DecodeInt_loop_digits:
  "i \<le> length s \<Longrightarrow>
   DecodeInt_loop t s i r = (case digits_value t (drop i s) r of None \<Rightarrow> NaN | Some v \<Rightarrow> Number v)"
proof (induction t s i r rule: DecodeInt_loop.induct)
  case (1 t s i r)
  show ?case
  proof (cases "i < length s")
    case False
    then show ?thesis using "1.prems" by (simp add: DecodeInt_loop.simps [of t s "length s"])
  next
    case True
    then have d: "drop i s = s ! i # drop (i + 1) s" by (simp add: Cons_nth_drop_Suc)
    have c: "char_at s i = Str [s ! i]" using True by (simp add: char_at_def)
    show ?thesis
    proof (cases "AlphabetLookup t (Str [s ! i])")
      case None
      then show ?thesis using True c d by (simp add: DecodeInt_loop.simps [of t s i])
    next
      case (Some k)
      then have "AlphabetLookup t (char_at s i) = Some k" using c by simp
      from "1.IH" [OF True refl this] True Some c d show ?thesis
        by (simp add: DecodeInt_loop.simps [of t s i])
    qed
  qed
qed

lemma EncodeBigInt_loop_eq: "EncodeBigInt_loop t n r = EncodeInt_loop t n r"
proof (induction t n r rule: EncodeInt_loop.induct)
  case (1 t n r)
  show ?case
  proof (cases "n \<noteq> 0")
    case True
    then show ?thesis using "1.IH" [OF True refl refl refl refl]
      by (simp add: EncodeInt_loop.simps [of t n] EncodeBigInt_loop.simps [of t n] Let_def)
  next
    case False
    then show ?thesis by (simp add: EncodeInt_loop.simps [of t 0] EncodeBigInt_loop.simps [of t 0])
  qed
qed

lemma EncodeInt_loop_digits:
  "Base64Encoding a options = Inr t \<Longrightarrow> length a = 64 \<Longrightarrow>
   \<exists>E. EncodeInt_loop t n r = E @ r \<and> digits_value t E 0 = Some n
         \<and> (n \<noteq> 0 \<longrightarrow> E \<noteq> [] \<and> hd E \<noteq> a ! 0)"
proof (induction t n r rule: EncodeInt_loop.induct)
  case (1 t n r)
  note B = Base64Encoding_64 [OF "1.prems"] and A = Base64Encoding_Inr(1) [OF "1.prems"(1)]
  show ?case
  proof (cases "n \<noteq> 0")
    case False
    then have "EncodeInt_loop t n r = [] @ r" by (simp add: EncodeInt_loop.simps [of t 0])
    then show ?thesis using False by auto
  next
    case True
    let ?d = "n mod 64" and ?q = "n div 64"
    have d: "?d < 64" by simp
    have sym: "ToString (char_at (Alphabet t) ?d) = [a ! ?d]"
      using A "1.prems"(2) by (simp add: char_at_def)
    have step: "EncodeInt_loop t n r = EncodeInt_loop t ?q (a ! ?d # r)"
      using True sym by (simp add: EncodeInt_loop.simps [of t n] Let_def)
    from "1.IH" [OF True refl refl refl refl "1.prems"] sym
    obtain E' where E': "EncodeInt_loop t ?q (a ! ?d # r) = E' @ (a ! ?d # r)"
      "digits_value t E' 0 = Some ?q" "?q \<noteq> 0 \<longrightarrow> E' \<noteq> [] \<and> hd E' \<noteq> a ! 0"
      by auto
    have look: "AlphabetLookup t (Str [a ! ?d]) = Some ?d"
      using B(2) [of "a ! ?d"] index_of_nth [OF B(1), of ?d] "1.prems"(2) by simp
    have val: "digits_value t (E' @ [a ! ?d]) 0 = Some n"
      using E'(2) look by (simp add: digits_value_append)
    have hd: "hd (E' @ [a ! ?d]) \<noteq> a ! 0"
    proof (cases "?q = 0")
      case q: True
      then have "E' @ (a ! ?d # r) = a ! ?d # r"
        using E'(1) by (simp add: EncodeInt_loop.simps [of t 0])
      then have "E' = []" by simp
      moreover have "?d \<noteq> 0" using q True by (metis div_mult_mod_eq add_0 mult_0)
      then have "a ! ?d \<noteq> a ! 0"
        using B(1) "1.prems"(2) d by (simp add: nth_eq_iff_index_eq)
      ultimately show ?thesis by simp
    next
      case False
      then show ?thesis using E'(3) by simp
    qed
    have "EncodeInt_loop t n r = (E' @ [a ! ?d]) @ r" using step E'(1) by simp
    then show ?thesis using val hd by blast
  qed
qed

lemma count_leadingZeros_none:
  "s \<noteq> [] \<Longrightarrow> char_at s 0 \<noteq> z \<Longrightarrow> count_leadingZeros z s 0 = 0"
  by (simp add: count_leadingZeros.simps [of z s 0])

lemma DecodeInt_EncodeInt:
  assumes "Base64Encoding a options = Inr t" and "length a = 64"
  shows "DecodeInt t (ToString (EncodeInt t n)) = Number n"
proof (cases "n = 0")
  case True
  note A = Base64Encoding_Inr [OF assms(1)]
  have z: "char_at (Alphabet t) 0 = Str [a ! 0]" using A(1) assms(2) by (simp add: char_at_def)
  have "count_leadingZeros (Str [a ! 0]) [a ! 0] 0 = 1"
    by (simp add: count_leadingZeros.simps [of _ _ 0] count_leadingZeros.simps [of _ _ 1]
        count_leadingZeros.simps [of _ _ "Suc 0"] char_at_def)
  then show ?thesis using True z
    by (simp add: EncodeInt_def DecodeInt_def Let_def DecodeInt_loop.simps [of _ _ 1]
        DecodeInt_loop.simps [of _ _ "Suc 0"])
next
  case False
  note A = Base64Encoding_Inr [OF assms(1)]
  from EncodeInt_loop_digits [OF assms, of n "[]"] False
  obtain E where E: "EncodeInt_loop t n [] = E" "digits_value t E 0 = Some n" "E \<noteq> []" "hd E \<noteq> a ! 0"
    by auto
  have z: "char_at (Alphabet t) 0 = Str [a ! 0]" using A(1) assms(2) by (simp add: char_at_def)
  have "char_at E 0 = Str [hd E]" using E(3) by (simp add: char_at_def hd_conv_nth)
  then have "count_leadingZeros (Str [a ! 0]) E 0 = 0"
    using E(3,4) by (simp add: count_leadingZeros_none)
  then show ?thesis using False E z
    by (simp add: EncodeInt_def DecodeInt_def Let_def DecodeInt_loop_digits)
qed

text \<open>
  C7. For every instance built from an alphabet of 64 characters and every natural number
  \<open>n\<close>: the arbitrary-precision decoder returns \<open>n\<close> on the arbitrary-precision encoding of
  \<open>n\<close>; so does the fixed-width pair, stated for \<open>n\<close> below \<open>2 ^ 53\<close>, where JavaScript
  numbers are exact; and both encoders map 0 to the first character of the alphabet.
\<close>

theorem C7_integer_roundtrip:
  assumes "Base64Encoding a options = Inr t" and "length a = 64"
  shows "decodeBigInt t (encodeBigInt t n) = Inr n
    \<and> (n < 2 ^ 53 \<longrightarrow> decodeInt t (encodeInt t n) = Number n)
    \<and> encodeInt t 0 = Str [hd (Alphabet t)]
    \<and> encodeBigInt t 0 = Str [hd (Alphabet t)]"
proof -
  note A = Base64Encoding_Inr [OF assms(1)]
  have rt: "DecodeInt t (ToString (EncodeInt t n)) = Number n"
    using assms by (rule DecodeInt_EncodeInt)
  have same: "EncodeBigInt t m = EncodeInt t m" for m
    by (simp add: EncodeBigInt_def EncodeInt_def EncodeBigInt_loop_eq)
  have ne: "ToString (EncodeInt t n) \<noteq> []"
    using rt by (auto simp: DecodeInt_def)
  have "a \<noteq> []" using assms(2) by auto
  then have zero: "EncodeInt t 0 = Str [hd (Alphabet t)]"
    using A(1) by (simp add: EncodeInt_def char_at_def hd_conv_nth)
  from rt same ne zero show ?thesis
    by (simp add: decodeBigInt_def encodeBigInt_def decodeInt_def encodeInt_def DecodeBigInt_eq)
qed

theorem C7_integer_roundtrip_witness:
  "Base64Encoding BASIC_alphabet None = Inr BASIC \<and> length BASIC_alphabet = 64
   \<and> decodeBigInt BASIC (encodeBigInt BASIC 123456789012345678901234567890)
       = Inr 123456789012345678901234567890
   \<and> (4095 < (2::nat) ^ 53 \<and> decodeInt BASIC (encodeInt BASIC 4095) = Number 4095)
   \<and> encodeInt BASIC 0 = Str (str ''A'')"
proof -
  have len: "length BASIC_alphabet = 64" by (simp add: BASIC_alphabet_codes)
  have small: "(4095::nat) < 2 ^ 53" by simp
  show ?thesis
    using C7_integer_roundtrip [OF BASIC_constructed len, of 123456789012345678901234567890]
      C7_integer_roundtrip [OF BASIC_constructed len, of 4095]
      BASIC_constructed len small
    by (simp add: BASIC_slots)
qed

section \<open>Encoding: what the loops emit\<close>

lemma and_3: "(x::nat) AND 3 = x mod 4"
  using take_bit_eq_mask [of 2 x] by (simp add: take_bit_eq_mod mask_eq_exp_minus_1)

lemma and_15: "(x::nat) AND 15 = x mod 16"
  using take_bit_eq_mask [of 4 x] by (simp add: take_bit_eq_mod mask_eq_exp_minus_1)

lemma and_63: "(x::nat) AND 63 = x mod 64"
  using take_bit_eq_mask [of 6 x] by (simp add: take_bit_eq_mod mask_eq_exp_minus_1)

text \<open>The largest carry that can enter position \<open>j\<close> of a group.\<close>

definition carry_bound :: "nat \<Rightarrow> nat" where
  "carry_bound j = (if j = 0 then 0 else if j = 1 then 48 else if j = 2 then 60 else 63)"

lemma encode_step_bounds:
  assumes "j < 3" and "carry \<le> carry_bound j" and "x \<le> 255"
  shows "carry + drop_bit (table_at ENCODING_SHIFTS j) x < 64"
    and "push_bit (table_at ENCODING_DIGITS j) (x AND table_at ENCODING_MASKS j) \<le> carry_bound (j + 1)"
proof -
  from assms(1) consider "j = 0" | "j = 1" | "j = 2" by linarith
  then show "carry + drop_bit (table_at ENCODING_SHIFTS j) x < 64"
  proof cases
    case 1
    then show ?thesis using assms
      by (simp add: table_at_def ENCODING_SHIFTS_def carry_bound_def drop_bit_eq_div)
  next
    case 2
    then show ?thesis using assms
      by (simp add: table_at_def ENCODING_SHIFTS_def carry_bound_def drop_bit_eq_div)
  next
    case 3
    then show ?thesis using assms
      by (simp add: table_at_def ENCODING_SHIFTS_def carry_bound_def drop_bit_eq_div)
  qed
  from assms(1) consider "j = 0" | "j = 1" | "j = 2" by linarith
  then show "push_bit (table_at ENCODING_DIGITS j) (x AND table_at ENCODING_MASKS j) \<le> carry_bound (j + 1)"
  proof cases
    case 1
    have "x mod 4 \<le> 3" by simp
    then show ?thesis using 1
      by (simp add: table_at_def ENCODING_DIGITS_def ENCODING_MASKS_def carry_bound_def
          push_bit_eq_mult and_3)
  next
    case 2
    have "x mod 16 \<le> 15" by simp
    then show ?thesis using 2
      by (simp add: table_at_def ENCODING_DIGITS_def ENCODING_MASKS_def carry_bound_def
          push_bit_eq_mult and_15)
  next
    case 3
    have "x mod 64 \<le> 63" by simp
    then show ?thesis using 3
      by (simp add: table_at_def ENCODING_DIGITS_def ENCODING_MASKS_def carry_bound_def
          push_bit_eq_mult and_63)
  qed
qed

lemma carry_bound_le: "carry_bound j \<le> 63"
  by (simp add: carry_bound_def)


lemma ToInt32_le_255: "\<not> number_greater n 0xff \<Longrightarrow> ToInt32 n \<le> 255"
  by (cases n) auto

lemma Encode_inner_emits:
  "Encode_inner t s bytes j st = Inr st' \<Longrightarrow> Alphabet t = a \<Longrightarrow> length a = 64 \<Longrightarrow>
   bytes \<le> 3 \<Longrightarrow> fst (snd st) \<le> carry_bound j \<Longrightarrow>
   fst st' = fst st + (bytes - j) \<and> fst (snd st') \<le> 63
   \<and> (\<exists>syms. snd (snd st') = snd (snd st) @ syms \<and> length syms = bytes - j \<and> set syms \<subseteq> set a)"
proof (induction t s bytes j st rule: Encode_inner.induct)
  case (1 t s bytes j position carry result)
  show ?case
  proof (cases "j < bytes")
    case False
    then have "st' = (position, carry, result)"
      using "1.prems"(1) by (simp add: Encode_inner.simps [of t s bytes j])
    then show ?thesis using False "1.prems"(5) carry_bound_le [of j] by simp
  next
    case True
    let ?n = "StringCharCodeAt s position"
    let ?x = "ToInt32 ?n"
    let ?idx = "carry + drop_bit (table_at ENCODING_SHIFTS j) ?x"
    let ?carry' = "push_bit (table_at ENCODING_DIGITS j) (?x AND table_at ENCODING_MASKS j)"
    have ngt: "\<not> number_greater ?n 0xff"
      using "1.prems"(1) True by (auto simp: Encode_inner.simps [of t s bytes j] Let_def split: if_splits)
    then have x: "?x \<le> 255" by (rule ToInt32_le_255)
    have j3: "j < 3" using True "1.prems"(4) by simp
    have idx: "?idx < 64" and c': "?carry' \<le> carry_bound (j + 1)"
      using encode_step_bounds [OF j3 _ x, of carry] "1.prems"(5) by simp_all
    have sym: "ToString (char_at (Alphabet t) ?idx) = [a ! ?idx]"
      using idx "1.prems"(2,3) by (simp add: char_at_def)
    have rec: "Encode_inner t s bytes (j + 1) (position + 1, ?carry', result @ [a ! ?idx]) = Inr st'"
      using "1.prems"(1) True ngt sym by (simp add: Encode_inner.simps [of t s bytes j] Let_def)
    from "1.IH" [OF True refl ngt refl refl refl rec [folded sym] "1.prems"(2,3,4)] c'
    obtain syms where IH: "fst st' = position + 1 + (bytes - (j + 1))" "fst (snd st') \<le> 63"
      "snd (snd st') = (result @ [a ! ?idx]) @ syms" "length syms = bytes - (j + 1)" "set syms \<subseteq> set a"
      using sym by auto
    have "a ! ?idx \<in> set a" using idx "1.prems"(3) by simp
    then have "snd (snd st') = result @ (a ! ?idx # syms) \<and> length (a ! ?idx # syms) = bytes - j
        \<and> set (a ! ?idx # syms) \<subseteq> set a"
      using IH True by simp
    then show ?thesis using IH(1,2) True by (simp del: append_assoc)
  qed
qed

text \<open>The number of symbols for \<open>r\<close> remaining input elements.\<close>

definition nsyms :: "nat \<Rightarrow> nat" where
  "nsyms r = (4 * r + 2) div 3"

lemma nsyms_step:
  "0 < r \<Longrightarrow> nsyms r = (if r < 3 then r else 3) + 1 + nsyms (r - 3)"
  by (auto simp: nsyms_def)

lemma Encode_loop_emits:
  "Encode_loop t s i st = Inr st' \<Longrightarrow> Alphabet t = a \<Longrightarrow> length a = 64 \<Longrightarrow>
   \<exists>syms. snd st' = snd st @ syms \<and> length syms = nsyms (length s - i) \<and> set syms \<subseteq> set a"
proof (induction t s i st rule: Encode_loop.induct)
  case (1 t s i position result)
  show ?case
  proof (cases "i < length s")
    case False
    then have "st' = (position, result)"
      using "1.prems"(1) by (simp add: Encode_loop.simps [of t s i])
    then show ?thesis using False by (simp add: nsyms_def)
  next
    case True
    let ?bytes = "GetEncodingBytes (length s) i"
    have b: "?bytes = (if length s - i < 3 then length s - i else 3)" "?bytes \<le> 3"
      by (simp_all add: GetEncodingBytes_def Let_def)
    from "1.prems"(1) True obtain p' c' r' where
      inner: "Encode_inner t s ?bytes 0 (position, 0, result) = Inr (p', c', r')"
      by (auto simp: Encode_loop.simps [of t s i] Let_def split: sum.splits)
    from Encode_inner_emits [OF inner "1.prems"(2,3) b(2)]
    obtain g where g: "c' \<le> 63" "r' = result @ g" "length g = ?bytes" "set g \<subseteq> set a"
      by (auto simp: carry_bound_def)
    have sym: "ToString (char_at (Alphabet t) c') = [a ! c']"
      using g(1) "1.prems"(2,3) by (simp add: char_at_def)
    have rec: "Encode_loop t s (i + 3) (p', r' @ [a ! c']) = Inr st'"
      using "1.prems"(1) True inner sym by (simp add: Encode_loop.simps [of t s i] Let_def)
    from "1.IH" [OF True refl inner refl refl rec [folded sym] "1.prems"(2,3)]
    obtain syms where IH: "snd st' = (r' @ [a ! c']) @ syms"
      "length syms = nsyms (length s - (i + 3))" "set syms \<subseteq> set a"
      using sym by auto
    have "a ! c' \<in> set a" using g(1) "1.prems"(3) by simp
    moreover have "nsyms (length s - i) = ?bytes + 1 + nsyms (length s - (i + 3))"
      using nsyms_step [of "length s - i"] True b(1) by simp
    ultimately have "snd st' = result @ (g @ a ! c' # syms)
        \<and> length (g @ a ! c' # syms) = nsyms (length s - i)
        \<and> set (g @ a ! c' # syms) \<subseteq> set a"
      using IH g by simp
    then show ?thesis by (simp del: append_assoc)
  qed
qed

lemma GetPaddedLength_props: "n \<le> GetPaddedLength n \<and> GetPaddedLength n mod 4 = 0"
  by (simp add: GetPaddedLength_def Let_def) presburger

lemma pad_string_eq:
  "padding_or_nul t = [c] \<Longrightarrow> length r \<le> n \<Longrightarrow> pad_string t r n = r @ replicate (n - length r) c"
proof (induction t r n rule: pad_string.induct)
  case (1 t r n)
  show ?case
  proof (cases "length r < n")
    case True
    then have "n - length r = Suc (n - (length r + 1))" by simp
    then show ?thesis
      using "1.IH" [OF True] "1.prems" True
      by (simp add: pad_string.simps [of t r n] replicate_app_Cons_same)
  next
    case False
    then show ?thesis using "1.prems" by (simp add: pad_string.simps [of t r n])
  qed
qed


lemma Encode_result:
  assumes "Encode t s wp = Inr out" and "s \<noteq> []"
  obtains position result where "Encode_loop t s 0 (0, []) = Inr (position, result)"
    and "out = (if wp \<and> length result < GetPaddedLength (length result)
                then pad_string t result (GetPaddedLength (length result)) else result)"
  using assms by (auto simp: Encode_def Let_def split: sum.splits if_splits)

lemma padding_or_nul_single:
  "length (Padding t) \<le> 1 \<Longrightarrow> padding_or_nul t = [if Padding t = [] then 0 else hd (Padding t)]"
  by (cases "Padding t") (auto simp: padding_or_nul_def)

lemma Encode_padded_length:
  assumes "Encode t s True = Inr out" and "length (Padding t) \<le> 1"
  shows "length out mod 4 = 0"
proof (cases "s = []")
  case True
  then show ?thesis using assms(1) by (simp add: Encode_def)
next
  case False
  from Encode_result [OF assms(1) False] obtain position result where
    out: "out = (if length result < GetPaddedLength (length result)
                then pad_string t result (GetPaddedLength (length result)) else result)"
    by auto
  note P = GetPaddedLength_props [of "length result"]
  show ?thesis
  proof (cases "length result < GetPaddedLength (length result)")
    case True
    then show ?thesis
      using out P pad_string_eq [OF padding_or_nul_single [OF assms(2)], of result "GetPaddedLength (length result)"]
      by simp
  next
    case False
    then have "GetPaddedLength (length result) = length result" using P by simp
    then have "length result mod 4 = 0" using P by metis
    then show ?thesis using out False by simp
  qed
qed

lemma Encode_unpadded_symbols:
  assumes "Encode t s False = Inr out" and "Alphabet t = a" and "length a = 64"
  shows "set out \<subseteq> set a \<and> length out = nsyms (length s)"
proof (cases "s = []")
  case True
  then show ?thesis using assms(1) by (simp add: Encode_def nsyms_def)
next
  case False
  from Encode_result [OF assms(1) False] obtain position where
    loop: "Encode_loop t s 0 (0, []) = Inr (position, out)"
    by auto
  from Encode_loop_emits [OF loop assms(2,3)] show ?thesis by simp
qed


subsection \<open>The byte-output encoder writes the codes of the symbols of the string-output one\<close>

lemma EncodeToBytes_inner_Encode_inner:
  "Alphabet t = a \<Longrightarrow> length a = 64 \<Longrightarrow> (\<forall>k<64. BaseMap t k = Some (Number (a ! k))) \<Longrightarrow>
   bytes \<le> 3 \<Longrightarrow> fst (snd st) \<le> carry_bound j \<Longrightarrow> index + (bytes - j) \<le> length xs \<Longrightarrow>
   EncodeToBytes_inner t s bytes j (index, fst st, fst (snd st), xs) =
     (case Encode_inner t s bytes j st of
        Inl e \<Rightarrow> Inl e
      | Inr (p', c', r') \<Rightarrow>
          Inr (index + (bytes - j), p', c',
               take index xs @ map of_nat (drop (length (snd (snd st))) r')
                 @ drop (index + (bytes - j)) xs))"
proof (induction t s bytes j st arbitrary: index xs rule: Encode_inner.induct)
  case (1 t s bytes j position carry result)
  show ?case
  proof (cases "j < bytes")
    case False
    then show ?thesis
      using "1.prems"(6)
      by (simp add: Encode_inner.simps [of t s bytes j] EncodeToBytes_inner.simps [of t s bytes j])
  next
    case True
    let ?n = "StringCharCodeAt s position"
    let ?x = "ToInt32 ?n"
    let ?idx = "carry + drop_bit (table_at ENCODING_SHIFTS j) ?x"
    let ?carry' = "push_bit (table_at ENCODING_DIGITS j) (?x AND table_at ENCODING_MASKS j)"
    show ?thesis
    proof (cases "number_greater ?n 0xff")
      case gt: True
      then show ?thesis using True
        by (simp add: Encode_inner.simps [of t s bytes j] EncodeToBytes_inner.simps [of t s bytes j])
    next
      case ngt: False
      then have x: "?x \<le> 255" by (rule ToInt32_le_255)
      have j3: "j < 3" using True "1.prems"(4) by simp
      have idx: "?idx < 64" and c': "?carry' \<le> carry_bound (j + 1)"
        using encode_step_bounds [OF j3 _ x, of carry] "1.prems"(5) by simp_all
      have sym: "ToString (char_at (Alphabet t) ?idx) = [a ! ?idx]"
        using idx "1.prems"(1,2) by (simp add: char_at_def)
      have byte: "MapGet_byte (BaseMap t) ?idx = of_nat (a ! ?idx)"
        using idx "1.prems"(3) by (simp add: MapGet_byte_def)
      let ?st1 = "(position + 1, ?carry', result @ [a ! ?idx])"
      let ?xs1 = "xs[index := of_nat (a ! ?idx)]"
      have stepE: "Encode_inner t s bytes j (position, carry, result) = Encode_inner t s bytes (j + 1) ?st1"
        using True ngt sym by (simp add: Encode_inner.simps [of t s bytes j] Let_def)
      have stepB: "EncodeToBytes_inner t s bytes j (index, position, carry, xs)
          = EncodeToBytes_inner t s bytes (j + 1) (index + 1, position + 1, ?carry', ?xs1)"
        using True ngt byte by (simp add: EncodeToBytes_inner.simps [of t s bytes j] Let_def)
      have fit: "index + 1 + (bytes - (j + 1)) \<le> length ?xs1" "index < length xs"
        using "1.prems"(6) True by simp_all
      have c1: "fst (snd ?st1) \<le> carry_bound (j + 1)" using c' by simp
      note IH = "1.IH" [OF True refl ngt refl refl refl, unfolded sym,
          OF "1.prems"(1,2,3,4) c1 fit(1), unfolded fst_conv snd_conv]
      show ?thesis
      proof (cases "Encode_inner t s bytes (j + 1) ?st1")
        case (Inl e)
        then show ?thesis using stepE stepB IH by simp
      next
        case (Inr st')
        obtain p' c'' r' where st': "st' = (p', c'', r')" by (cases st') auto
        from Encode_inner_emits [OF Inr "1.prems"(1,2,4)] c' st'
        obtain syms where r': "r' = (result @ [a ! ?idx]) @ syms" by auto
        have t1: "take (index + 1) ?xs1 = take index xs @ [of_nat (a ! ?idx)]"
          using fit(2) by (simp add: take_Suc_conv_app_nth)
        have n1: "index + 1 + (bytes - (j + 1)) = index + (bytes - j)" using True by simp
        have "index < index + (bytes - j)" using True by simp
        then have d1: "drop (index + 1 + (bytes - (j + 1))) ?xs1 = drop (index + (bytes - j)) xs"
          unfolding n1 by (rule drop_update_cancel)
        show ?thesis
          using stepE stepB IH Inr st' r' t1 d1 n1 by simp
      qed
    qed
  qed
qed


text \<open>A buffer with the segment starting at \<open>index\<close> replaced.\<close>

definition overwrite :: "'a list \<Rightarrow> nat \<Rightarrow> 'a list \<Rightarrow> 'a list" where
  "overwrite xs index ws = take index xs @ ws @ drop (index + length ws) xs"

lemma overwrite_Nil: "overwrite xs index [] = xs"
  by (simp add: overwrite_def)

lemma overwrite_update:
  assumes "index + length ws < length xs"
  shows "(overwrite xs index ws)[index + length ws := v] = overwrite xs index (ws @ [v])"
proof -
  have "drop (index + length ws) xs = xs ! (index + length ws) # drop (Suc (index + length ws)) xs"
    using assms by (simp add: Cons_nth_drop_Suc)
  moreover have "length (take index xs) = index" using assms by simp
  ultimately show ?thesis
    by (simp add: overwrite_def list_update_append)
qed

lemma overwrite_overwrite:
  assumes "index + length ws + length vs \<le> length xs"
  shows "overwrite (overwrite xs index ws) (index + length ws) vs = overwrite xs index (ws @ vs)"
proof -
  have l: "length (take index xs) = index" using assms by simp
  have "take (index + length ws) (take index xs @ ws @ drop (index + length ws) xs)
      = take index xs @ ws"
    using l by (simp add: take_append)
  moreover have "drop (index + length ws + length vs) (take index xs @ ws @ drop (index + length ws) xs)
      = drop (index + (length ws + length vs)) xs"
    using l by (simp add: drop_append add.commute add.left_commute)
  ultimately show ?thesis
    by (simp add: overwrite_def)
qed

lemma overwrite_replicate:
  "length ws \<le> n \<Longrightarrow> overwrite (replicate n x) 0 ws = ws @ replicate (n - length ws) x"
  by (simp add: overwrite_def)

lemma EncodeToBytes_inner_overwrite:
  assumes "Alphabet t = a" and "length a = 64" and "\<forall>k<64. BaseMap t k = Some (Number (a ! k))"
    and "bytes \<le> 3" and "index + bytes \<le> length xs"
  shows "EncodeToBytes_inner t s bytes 0 (index, p, 0, xs) =
     (case Encode_inner t s bytes 0 (p, 0, r) of
        Inl e \<Rightarrow> Inl e
      | Inr (p', c', r') \<Rightarrow>
          Inr (index + bytes, p', c', overwrite xs index (map of_nat (drop (length r) r'))))"
proof (cases "Encode_inner t s bytes 0 (p, 0, r)")
  case (Inl e)
  then show ?thesis
    using EncodeToBytes_inner_Encode_inner [OF assms(1,2,3,4), of "(p, 0, r)" 0 index xs s] assms(5)
    by (simp add: carry_bound_def)
next
  case (Inr st')
  obtain p' c' r' where st': "st' = (p', c', r')" by (cases st') auto
  from Encode_inner_emits [OF Inr assms(1,2,4)] st'
  obtain g where g: "r' = r @ g" "length g = bytes" by (auto simp: carry_bound_def)
  show ?thesis
    using EncodeToBytes_inner_Encode_inner [OF assms(1,2,3,4), of "(p, 0, r)" 0 index xs s] assms(5)
      Inr st' g
    by (simp add: carry_bound_def overwrite_def)
qed

lemma EncodeToBytes_loop_Encode_loop:
  "Alphabet t = a \<Longrightarrow> length a = 64 \<Longrightarrow> (\<forall>k<64. BaseMap t k = Some (Number (a ! k))) \<Longrightarrow>
   index + nsyms (length s - i) \<le> length xs \<Longrightarrow>
   EncodeToBytes_loop t s i (index, fst st, xs) =
     (case Encode_loop t s i st of
        Inl e \<Rightarrow> Inl e
      | Inr (p', r') \<Rightarrow>
          Inr (index + nsyms (length s - i), p',
               overwrite xs index (map of_nat (drop (length (snd st)) r'))))"
proof (induction t s i st arbitrary: index xs rule: Encode_loop.induct)
  case (1 t s i position result)
  show ?case
  proof (cases "i < length s")
    case False
    then show ?thesis
      by (simp add: Encode_loop.simps [of t s i] EncodeToBytes_loop.simps [of t s i]
          nsyms_def overwrite_Nil)
  next
    case True
    let ?bytes = "GetEncodingBytes (length s) i"
    have b: "?bytes = (if length s - i < 3 then length s - i else 3)" "?bytes \<le> 3"
      by (simp_all add: GetEncodingBytes_def Let_def)
    have n: "nsyms (length s - i) = ?bytes + 1 + nsyms (length s - (i + 3))"
      using nsyms_step [of "length s - i"] True b(1) by simp
    have fit: "index + ?bytes < length xs" using "1.prems"(4) n by simp
    note inner = EncodeToBytes_inner_overwrite [OF "1.prems"(1,2,3) b(2), of index xs s position result]
    show ?thesis
    proof (cases "Encode_inner t s ?bytes 0 (position, 0, result)")
      case (Inl e)
      then show ?thesis using True inner fit
        by (simp add: Encode_loop.simps [of t s i] EncodeToBytes_loop.simps [of t s i] Let_def)
    next
      case (Inr st1)
      obtain p' c' r' where st1: "st1 = (p', c', r')" by (cases st1) auto
      from Encode_inner_emits [OF Inr "1.prems"(1,2) b(2)] st1
      obtain g where g: "c' \<le> 63" "r' = result @ g" "length g = ?bytes"
        by (auto simp: carry_bound_def)
      have sym: "ToString (char_at (Alphabet t) c') = [a ! c']"
        using g(1) "1.prems"(1,2) by (simp add: char_at_def)
      have byte: "MapGet_byte (BaseMap t) c' = of_nat (a ! c')"
        using g(1) "1.prems"(3) by (simp add: MapGet_byte_def)
      let ?G = "map of_nat g :: byte list"
      let ?v = "of_nat (a ! c') :: byte"
      let ?xs2 = "overwrite xs index (?G @ [?v])"
      have in1: "EncodeToBytes_inner t s ?bytes 0 (index, position, 0, xs)
          = Inr (index + ?bytes, p', c', overwrite xs index ?G)"
        using inner fit Inr st1 g by simp
      have up: "(overwrite xs index ?G)[index + ?bytes := ?v] = ?xs2"
        using overwrite_update [of index ?G xs ?v] fit g(3) by simp
      have stepB: "EncodeToBytes_loop t s i (index, position, xs)
          = EncodeToBytes_loop t s (i + 3) (index + ?bytes + 1, p', ?xs2)"
        using True in1 byte up
        by (simp add: EncodeToBytes_loop.simps [of t s i] Let_def)
      have stepE: "Encode_loop t s i (position, result) = Encode_loop t s (i + 3) (p', r' @ [a ! c'])"
        using True Inr st1 sym by (simp add: Encode_loop.simps [of t s i] Let_def)
      have len2: "length ?xs2 = length xs" using fit g(3) by (simp add: overwrite_def)
      have fit2: "index + ?bytes + 1 + nsyms (length s - (i + 3)) \<le> length ?xs2"
        using "1.prems"(4) n len2 by simp
      note IH = "1.IH" [OF True refl Inr [unfolded st1] refl refl, unfolded sym,
          OF "1.prems"(1,2,3) fit2, unfolded fst_conv snd_conv]
      show ?thesis
      proof (cases "Encode_loop t s (i + 3) (p', r' @ [a ! c'])")
        case (Inl e)
        then show ?thesis using stepB stepE IH by simp
      next
        case (Inr st2)
        obtain p'' r'' where st2: "st2 = (p'', r'')" by (cases st2) auto
        from Encode_loop_emits [OF Inr "1.prems"(1,2)] st2
        obtain syms where syms: "r'' = (r' @ [a ! c']) @ syms"
          "length syms = nsyms (length s - (i + 3))"
          by auto
        let ?W = "map of_nat syms :: byte list"
        have "overwrite ?xs2 (index + ?bytes + 1) ?W = overwrite xs index ((?G @ [?v]) @ ?W)"
          using overwrite_overwrite [of index "?G @ [?v]" ?W xs] fit2 len2 g(3) syms(2) by simp
        moreover have "drop (length (r' @ [a ! c'])) r'' = syms" using syms(1) by simp
        moreover have "map of_nat (drop (length result) r'') = (?G @ [?v]) @ ?W"
          using syms(1) g(2) by simp
        ultimately show ?thesis
          using stepB stepE IH Inr st2 n by simp
      qed
    qed
  qed
qed


lemma pad_bytes_eq:
  "length xs = capacity \<Longrightarrow> index \<le> capacity \<Longrightarrow>
   pad_bytes p capacity index xs = take index xs @ replicate (capacity - index) (of_nat p)"
proof (induction p capacity index xs rule: pad_bytes.induct)
  case (1 p capacity index xs)
  show ?case
  proof (cases "index < capacity")
    case False
    then show ?thesis using "1.prems" by (simp add: pad_bytes.simps [of p capacity capacity])
  next
    case True
    have "capacity - index = Suc (capacity - (index + 1))" using True by simp
    moreover have "take (index + 1) (xs[index := of_nat p]) = take index xs @ [of_nat p]"
      using True "1.prems"(1) by (simp add: take_Suc_conv_app_nth)
    ultimately show ?thesis
      using "1.IH" [OF True] "1.prems" True
      by (simp add: pad_bytes.simps [of p capacity index] replicate_app_Cons_same)
  qed
qed

text \<open>With padding requested, the string-output encoder returns the unpadded symbols followed
  by padding characters (NUL when the instance has none) up to a multiple of 4.\<close>

lemma Encode_padded_eq:
  assumes "length (Padding t) \<le> 1"
  shows "Encode t s True =
     (case Encode t s False of
        Inl e \<Rightarrow> Inl e
      | Inr syms \<Rightarrow>
          Inr (syms @ replicate (GetPaddedLength (length syms) - length syms)
                 (if Padding t = [] then 0 else hd (Padding t))))"
proof (cases "s = []")
  case True
  then show ?thesis by (simp add: Encode_def GetPaddedLength_def)
next
  case False
  show ?thesis
  proof (cases "Encode_loop t s 0 (0, [])")
    case (Inl e)
    then show ?thesis using False by (simp add: Encode_def)
  next
    case (Inr st)
    obtain p r where st: "st = (p, r)" by (cases st) auto
    note P = GetPaddedLength_props [of "length r"]
    show ?thesis
      using False Inr st P
        pad_string_eq [OF padding_or_nul_single [OF assms], of r "GetPaddedLength (length r)"]
      by (auto simp: Encode_def Let_def)
  qed
qed

text \<open>The byte-output encoder returns the character codes of the same symbols; with padding
  requested the buffer has the padded capacity, and its tail holds the padding code, or the
  zeros it was allocated with when the instance has no padding code.\<close>

lemma EncodeToBytes_eq:
  assumes "Alphabet t = a" and "length a = 64" and "\<forall>k<64. BaseMap t k = Some (Number (a ! k))"
  shows "EncodeToBytes t s wp =
     (case Encode t s False of
        Inl e \<Rightarrow> Inl e
      | Inr syms \<Rightarrow>
          Inr (map of_nat syms @
               (if wp then replicate (GetPaddedLength (length syms) - length syms)
                             (case PaddingCharCode t of None \<Rightarrow> 0 | Some p \<Rightarrow> of_nat p)
                else [])))"
proof (cases "s = []")
  case True
  then show ?thesis by (simp add: Encode_def EncodeToBytes_def GetPaddedLength_def)
next
  case False
  let ?n = "nsyms (length s)"
  let ?cap = "GetCapacity (length s) wp"
  have cap: "?cap = (if wp then GetPaddedLength ?n else ?n)"
    by (simp add: GetCapacity_def nsyms_def Let_def mult.commute)
  have fit: "0 + nsyms (length s - 0) \<le> length (replicate ?cap (0::byte))"
    using cap GetPaddedLength_props [of ?n] by simp
  note loop = EncodeToBytes_loop_Encode_loop [OF assms fit, of "(0, [])", unfolded fst_conv snd_conv]
  show ?thesis
  proof (cases "Encode_loop t s 0 (0, [])")
    case (Inl e)
    then show ?thesis using False loop by (simp add: Encode_def EncodeToBytes_def Let_def)
  next
    case (Inr st)
    obtain p r where st: "st = (p, r)" by (cases st) auto
    from Encode_loop_emits [OF Inr assms(1,2)] st have len: "length r = ?n" by simp
    let ?R = "map of_nat r :: byte list"
    have bufl: "EncodeToBytes_loop t s 0 (0, 0, replicate ?cap 0)
        = Inr (?n, p, ?R @ replicate (?cap - ?n) 0)"
      using loop Inr st len fit by (simp add: overwrite_replicate)
    have enc: "Encode t s False = Inr r" using False Inr st by (simp add: Encode_def)
    show ?thesis
    proof (cases "wp \<and> ?n < ?cap")
      case pad: True
      have lenR: "length (?R @ replicate (?cap - ?n) 0) = ?cap" "?n \<le> ?cap"
        using len pad by auto
      have "pad_result t wp ?cap ?n (?R @ replicate (?cap - ?n) 0)
          = ?R @ replicate (?cap - ?n) (case PaddingCharCode t of None \<Rightarrow> 0 | Some p \<Rightarrow> of_nat p)"
      proof (cases "PaddingCharCode t")
        case None
        then show ?thesis using pad by (simp add: pad_result_def)
      next
        case (Some c)
        show ?thesis
        proof (cases "c = 0")
          case True
          then show ?thesis using pad Some by (simp add: pad_result_def)
        next
          case False
          then show ?thesis
            using pad Some pad_bytes_eq [OF lenR, of c] len
            by (simp add: pad_result_def)
        qed
      qed
      then show ?thesis
        using False bufl enc pad cap len by (simp add: EncodeToBytes_def Let_def)
    next
      case nopad: False
      then have "pad_result t wp ?cap ?n (?R @ replicate (?cap - ?n) 0) = ?R @ replicate (?cap - ?n) 0"
        by (auto simp: pad_result_def)
      moreover have "wp \<Longrightarrow> ?cap = ?n" using nopad cap GetPaddedLength_props [of ?n] by auto
      ultimately show ?thesis
        using False bufl enc cap len by (auto simp: EncodeToBytes_def Let_def)
    qed
  qed
qed

subsection \<open>The encoders that read a byte array\<close>

lemma Uint8At_map_unat: "StringCharCodeAt (map unat source) i = Uint8At source i"
  by (simp add: StringCharCodeAt_def Uint8At_def)

lemma Uint8At_not_greater: "\<not> number_greater (Uint8At source i) 0xff"
proof -
  have "unat (source ! i) < 256" using unsigned_less [of "source ! i"] by simp
  then show ?thesis by (simp add: Uint8At_def)
qed

lemma Encode_inner_of_bytes:
  "Encode_inner t (map unat source) bytes j st = Inr (EncodeBytesToString_inner t source bytes j st)"
proof (induction t source bytes j st rule: EncodeBytesToString_inner.induct)
  case (1 t source bytes j position carry result)
  show ?case
  proof (cases "j < bytes")
    case False
    then show ?thesis
      by (simp add: Encode_inner.simps [of _ _ bytes j] EncodeBytesToString_inner.simps [of _ _ bytes j])
  next
    case True
    show ?thesis
      using True "1.IH" [OF True refl refl refl refl] Uint8At_not_greater [of source position]
      by (simp add: Encode_inner.simps [of _ _ bytes j] EncodeBytesToString_inner.simps [of _ _ bytes j]
          Uint8At_map_unat Let_def)
  qed
qed

lemma Encode_loop_of_bytes:
  "Encode_loop t (map unat source) i st = Inr (EncodeBytesToString_loop t source i st)"
proof (induction t source i st rule: EncodeBytesToString_loop.induct)
  case (1 t source i position result)
  show ?case
  proof (cases "i < length source")
    case False
    then show ?thesis
      by (simp add: Encode_loop.simps [of _ _ i] EncodeBytesToString_loop.simps [of _ _ i])
  next
    case True
    obtain p' c' r' where inner:
      "EncodeBytesToString_inner t source (GetEncodingBytes (length source) i) 0 (position, 0, result)
         = (p', c', r')"
      by (metis prod_cases3)
    show ?thesis
      using True inner "1.IH" [OF True refl inner [symmetric] refl]
      by (simp add: Encode_loop.simps [of _ _ i] EncodeBytesToString_loop.simps [of _ _ i]
          Encode_inner_of_bytes Let_def)
  qed
qed

lemma Encode_of_bytes:
  "Encode t (map unat source) wp = Inr (EncodeBytesToString t source wp)"
proof -
  obtain p r where "EncodeBytesToString_loop t source 0 (0, []) = (p, r)" by (cases "EncodeBytesToString_loop t source 0 (0, [])") auto
  then show ?thesis
    by (simp add: Encode_def EncodeBytesToString_def Encode_loop_of_bytes Let_def)
qed

lemma EncodeToBytes_inner_of_bytes:
  "EncodeToBytes_inner t (map unat source) bytes j st = Inr (EncodeBytes_inner t source bytes j st)"
proof (induction t source bytes j st rule: EncodeBytes_inner.induct)
  case (1 t source bytes j index position carry result)
  show ?case
  proof (cases "j < bytes")
    case False
    then show ?thesis
      by (simp add: EncodeToBytes_inner.simps [of _ _ bytes j] EncodeBytes_inner.simps [of _ _ bytes j])
  next
    case True
    show ?thesis
      using True "1.IH" [OF True refl refl refl refl] Uint8At_not_greater [of source position]
      by (simp add: EncodeToBytes_inner.simps [of _ _ bytes j] EncodeBytes_inner.simps [of _ _ bytes j]
          Uint8At_map_unat Let_def)
  qed
qed

lemma EncodeToBytes_loop_of_bytes:
  "EncodeToBytes_loop t (map unat source) i st = Inr (EncodeBytes_loop t source i st)"
proof (induction t source i st rule: EncodeBytes_loop.induct)
  case (1 t source i index position result)
  show ?case
  proof (cases "i < length source")
    case False
    then show ?thesis
      by (simp add: EncodeToBytes_loop.simps [of _ _ i] EncodeBytes_loop.simps [of _ _ i])
  next
    case True
    obtain i' p' c' r' where inner:
      "EncodeBytes_inner t source (GetEncodingBytes (length source) i) 0 (index, position, 0, result)
         = (i', p', c', r')"
      by (metis prod_cases4)
    show ?thesis
      using True inner "1.IH" [OF True refl inner [symmetric] refl refl]
      by (simp add: EncodeToBytes_loop.simps [of _ _ i] EncodeBytes_loop.simps [of _ _ i]
          EncodeToBytes_inner_of_bytes Let_def)
  qed
qed

lemma EncodeToBytes_of_bytes:
  "EncodeToBytes t (map unat source) wp = Inr (EncodeBytes t source wp)"
proof -
  obtain i p r where
    "EncodeBytes_loop t source 0 (0, 0, replicate (GetCapacity (length source) wp) 0) = (i, p, r)"
    by (metis prod_cases3)
  then show ?thesis
    by (simp add: EncodeToBytes_def EncodeBytes_def EncodeToBytes_loop_of_bytes Let_def)
qed

section \<open>Padding of the encoded output\<close>

lemma byte_of_nat_inj:
  assumes "c < 256" and "d < 256" and "(of_nat c :: byte) = of_nat d"
  shows "c = d"
proof -
  have "take_bit 8 c = c" "take_bit 8 d = d"
    using assms(1,2) by (simp_all add: take_bit_nat_eq_self)
  moreover have "unat (of_nat c :: byte) = take_bit 8 c" "unat (of_nat d :: byte) = take_bit 8 d"
    by (simp_all add: unsigned_of_nat)
  ultimately show ?thesis using assms(3) by metis
qed

text \<open>What the two string-input encoders return on an instance built from 64 characters.\<close>

lemma encoders_64:
  assumes "Base64Encoding a options = Inr t" and "length a = 64"
  shows "\<And>s syms. Encode t s False = Inr syms \<Longrightarrow>
            set syms \<subseteq> set a \<and> length syms = (4 * length s + 2) div 3"
    and "\<And>s. Encode t s True =
           (case Encode t s False of
              Inl e \<Rightarrow> Inl e
            | Inr syms \<Rightarrow>
                Inr (syms @ replicate (GetPaddedLength (length syms) - length syms)
                       (if Padding t = [] then 0 else hd (Padding t))))"
    and "\<And>s wp. EncodeToBytes t s wp =
           (case Encode t s False of
              Inl e \<Rightarrow> Inl e
            | Inr syms \<Rightarrow>
                Inr (map of_nat syms @
                     (if wp then replicate (GetPaddedLength (length syms) - length syms)
                                   (case PaddingCharCode t of None \<Rightarrow> 0 | Some p \<Rightarrow> of_nat p)
                      else [])))"
proof -
  note A = Base64Encoding_Inr [OF assms(1)] and B = Base64Encoding_64 [OF assms]
  show "\<And>s syms. Encode t s False = Inr syms \<Longrightarrow>
            set syms \<subseteq> set a \<and> length syms = (4 * length s + 2) div 3"
    using Encode_unpadded_symbols [OF _ A(1) assms(2)] by (simp add: nsyms_def)
  show "\<And>s. Encode t s True =
           (case Encode t s False of
              Inl e \<Rightarrow> Inl e
            | Inr syms \<Rightarrow>
                Inr (syms @ replicate (GetPaddedLength (length syms) - length syms)
                       (if Padding t = [] then 0 else hd (Padding t))))"
    using Encode_padded_eq [OF A(10)] .
  have bm: "\<forall>k<64. BaseMap t k = Some (Number (a ! k))" using B(5) by simp
  show "\<And>s wp. EncodeToBytes t s wp =
           (case Encode t s False of
              Inl e \<Rightarrow> Inl e
            | Inr syms \<Rightarrow>
                Inr (map of_nat syms @
                     (if wp then replicate (GetPaddedLength (length syms) - length syms)
                                   (case PaddingCharCode t of None \<Rightarrow> 0 | Some p \<Rightarrow> of_nat p)
                      else [])))"
    using EncodeToBytes_eq [OF A(1) assms(2) bm] .
qed

lemma padded_length_mod: "(n + (GetPaddedLength n - n)) mod 4 = 0"
  using GetPaddedLength_props [of n] by simp

lemma pad_count: "GetPaddedLength n - n = (4 - n mod 4) mod 4"
  by (simp add: GetPaddedLength_def Let_def)

lemma padding_determinism_string_input:
  assumes "Base64Encoding a options = Inr t" and "length a = 64"
  shows "Encode t s True = Inr out \<Longrightarrow> length out mod 4 = 0"
    and "EncodeToBytes t s True = Inr bs \<Longrightarrow> length bs mod 4 = 0"
    and "Encode t s False = Inr out \<Longrightarrow> set out \<inter> set (Padding t) = {}"
    and "EncodeToBytes t s False = Inr bs \<Longrightarrow> PaddingCharCode t = Some p \<Longrightarrow> of_nat p \<notin> set bs"
proof -
  note A = Base64Encoding_Inr [OF assms(1)] and B = Base64Encoding_64 [OF assms]
    and E = encoders_64 [OF assms]
  show "Encode t s True = Inr out \<Longrightarrow> length out mod 4 = 0"
    using E(2) [of s] padded_length_mod by (auto split: sum.splits)
  show "EncodeToBytes t s True = Inr bs \<Longrightarrow> length bs mod 4 = 0"
    using E(3) [of s True] padded_length_mod by (auto split: sum.splits)
  show "Encode t s False = Inr out \<Longrightarrow> set out \<inter> set (Padding t) = {}"
    using E(1) [of s out] B(7) by auto
  show "of_nat p \<notin> set bs" if bs: "EncodeToBytes t s False = Inr bs" and p: "PaddingCharCode t = Some p"
  proof
    assume mem: "of_nat p \<in> set bs"
    from bs E(3) [of s False] obtain syms where syms: "Encode t s False = Inr syms" "bs = map of_nat syms"
      by (auto split: sum.splits)
    from mem syms(2) obtain c where c: "c \<in> set syms" "(of_nat c :: byte) = of_nat p" by auto
    have ca: "c \<in> set a" using E(1) [OF syms(1)] c(1) by auto
    then have c256: "c < 256" using B(6) [of c] by simp
    from p A(12) have pad: "Padding t = [p]" using A(10)
      by (cases "Padding t") (auto split: list.splits)
    then have "p < 256" using A(11) [of p] by simp
    then have "c = p" using byte_of_nat_inj [OF c256 _ c(2)] by simp
    then show False using ca B(7) pad by auto
  qed
qed

text \<open>
  C9. For every instance built from an alphabet of 64 characters: whatever the input, an
  encoder called with padding returns an output whose length is a multiple of 4, and an
  encoder called without padding returns an output in which the padding character of the
  instance does not occur. This holds for the four encoders; the two that read a string are
  covered where they return (they raise on a character code above 255).
\<close>

theorem C9_padding_determinism:
  assumes "Base64Encoding a options = Inr t" and "length a = 64"
  shows "(\<forall>out. Encode t s True = Inr out \<longrightarrow> length out mod 4 = 0)
    \<and> (\<forall>bs. EncodeToBytes t s True = Inr bs \<longrightarrow> length bs mod 4 = 0)
    \<and> length (EncodeBytesToString t b True) mod 4 = 0
    \<and> length (EncodeBytes t b True) mod 4 = 0
    \<and> (\<forall>out. Encode t s False = Inr out \<longrightarrow> set out \<inter> set (Padding t) = {})
    \<and> (\<forall>bs p. EncodeToBytes t s False = Inr bs \<longrightarrow> PaddingCharCode t = Some p
          \<longrightarrow> of_nat p \<notin> set bs)
    \<and> set (EncodeBytesToString t b False) \<inter> set (Padding t) = {}
    \<and> (\<forall>p. PaddingCharCode t = Some p \<longrightarrow> of_nat p \<notin> set (EncodeBytes t b False))"
proof -
  note S = padding_determinism_string_input [OF assms]
  have "length (EncodeBytesToString t b True) mod 4 = 0"
    using S(1) [OF Encode_of_bytes] .
  moreover have "length (EncodeBytes t b True) mod 4 = 0"
    using S(2) [OF EncodeToBytes_of_bytes] .
  moreover have "set (EncodeBytesToString t b False) \<inter> set (Padding t) = {}"
    using S(3) [OF Encode_of_bytes] .
  moreover have "\<forall>p. PaddingCharCode t = Some p \<longrightarrow> of_nat p \<notin> set (EncodeBytes t b False)"
    using S(4) [OF EncodeToBytes_of_bytes] by blast
  ultimately show ?thesis using S by blast
qed

theorem C9_padding_determinism_witness:
  "Base64Encoding BASIC_alphabet None = Inr BASIC \<and> length BASIC_alphabet = 64
   \<and> Encode BASIC (str ''Ma'') True = Inr (str ''TWE='') \<and> length (str ''TWE='') mod 4 = 0
   \<and> EncodeToBytes BASIC (str ''Ma'') True = Inr [84, 87, 69, 61]
   \<and> length [84, 87, 69, 61 :: byte] mod 4 = 0
   \<and> length (EncodeBytesToString BASIC [0x4D] True) mod 4 = 0
   \<and> length (EncodeBytes BASIC [0x4D] True) mod 4 = 0
   \<and> Encode BASIC (str ''Ma'') False = Inr (str ''TWE'')
   \<and> set (str ''TWE'') \<inter> set (Padding BASIC) = {}
   \<and> EncodeToBytes BASIC (str ''Ma'') False = Inr [84, 87, 69]
   \<and> PaddingCharCode BASIC = Some 61 \<and> of_nat 61 \<notin> set [84, 87, 69 :: byte]
   \<and> set (EncodeBytesToString BASIC [0x4D] False) \<inter> set (Padding BASIC) = {}
   \<and> of_nat 61 \<notin> set (EncodeBytes BASIC [0x4D] False)"
proof -
  have len: "length BASIC_alphabet = 64" by (simp add: BASIC_alphabet_codes)
  have run: "Encode BASIC (str ''Ma'') True = Inr (str ''TWE='')"
    "EncodeToBytes BASIC (str ''Ma'') True = Inr [84, 87, 69, 61]"
    "Encode BASIC (str ''Ma'') False = Inr (str ''TWE'')"
    "EncodeToBytes BASIC (str ''Ma'') False = Inr [84, 87, 69]"
    "PaddingCharCode BASIC = Some 61"
    by (simp_all add: run_simps BASIC_slots)
  show ?thesis
    using C9_padding_determinism [OF BASIC_constructed len, of "str ''Ma''" "[0x4D]"]
      BASIC_constructed len run
    by simp
qed

lemma nul_padding_string_input:
  assumes "Base64Encoding a options = Inr t" and "length a = 64" and "Padding t = []"
  shows "Encode t s False = Inr syms \<Longrightarrow> 0 \<notin> set syms"
    and "Encode t s True = Inr out \<Longrightarrow>
           \<exists>syms. Encode t s False = Inr syms
             \<and> out = syms @ replicate ((4 - length syms mod 4) mod 4) 0"
    and "EncodeToBytes t s False = Inr bsyms \<Longrightarrow>
           0 \<notin> set bsyms \<and> length bsyms = (4 * length s + 2) div 3"
    and "EncodeToBytes t s True = Inr bs \<Longrightarrow>
           \<exists>bsyms. EncodeToBytes t s False = Inr bsyms
             \<and> bs = bsyms @ replicate ((4 - length bsyms mod 4) mod 4) 0"
proof -
  note A = Base64Encoding_Inr [OF assms(1)] and B = Base64Encoding_64 [OF assms(1,2)]
    and E = encoders_64 [OF assms(1,2)]
  have nocode: "PaddingCharCode t = None" using A(12) assms(3) by simp
  show z: "0 \<notin> set syms" if "Encode t s False = Inr syms" for syms
    using E(1) [OF that] B(6) [of 0] by auto
  show "Encode t s True = Inr out \<Longrightarrow>
           \<exists>syms. Encode t s False = Inr syms
             \<and> out = syms @ replicate ((4 - length syms mod 4) mod 4) 0"
    using E(2) [of s] assms(3) by (auto simp: pad_count split: sum.splits)
  show "0 \<notin> set bsyms \<and> length bsyms = (4 * length s + 2) div 3"
    if bs: "EncodeToBytes t s False = Inr bsyms"
  proof -
    from bs E(3) [of s False] obtain syms where
      syms: "Encode t s False = Inr syms" "bsyms = map of_nat syms"
      by (auto split: sum.splits)
    have "(of_nat c :: byte) \<noteq> 0" if "c \<in> set syms" for c
    proof
      assume eq: "(of_nat c :: byte) = 0"
      have "c \<in> set a" using E(1) [OF syms(1)] that by auto
      then have c: "0x21 \<le> c" "c < 256" using B(6) [of c] by simp_all
      have "c = 0" using byte_of_nat_inj [OF c(2), of 0] eq by simp
      then show False using c(1) by simp
    qed
    then show ?thesis using syms(2) E(1) [OF syms(1)] by auto
  qed
  show "EncodeToBytes t s True = Inr bs \<Longrightarrow>
           \<exists>bsyms. EncodeToBytes t s False = Inr bsyms
             \<and> bs = bsyms @ replicate ((4 - length bsyms mod 4) mod 4) 0"
    using E(3) [of s True] E(3) [of s False] nocode by (auto simp: pad_count split: sum.splits)
qed

text \<open>
  C10. For every instance built from an alphabet of 64 characters with the empty padding
  string: an encoder called with padding returns the symbols of the unpadded encoding, none of
  which is zero, followed by as many zeros (U+0000 in a string, the byte 00 in a buffer) as
  bring the length to a multiple of 4, that is \<open>(4 - n mod 4) mod 4\<close> of them for \<open>n\<close>
  symbols; the buffer of a byte-output encoder is returned whole, not cut back to the \<open>n\<close>
  symbols written.
\<close>

theorem C10_nul_padding:
  assumes "Base64Encoding a options = Inr t" and "length a = 64" and "Padding t = []"
  shows "(\<forall>out. Encode t s True = Inr out \<longrightarrow>
            (\<exists>syms. Encode t s False = Inr syms \<and> 0 \<notin> set syms
               \<and> out = syms @ replicate ((4 - length syms mod 4) mod 4) 0))
    \<and> (\<forall>bs. EncodeToBytes t s True = Inr bs \<longrightarrow>
            (\<exists>bsyms. EncodeToBytes t s False = Inr bsyms \<and> 0 \<notin> set bsyms
               \<and> length bsyms = (4 * length s + 2) div 3
               \<and> bs = bsyms @ replicate ((4 - length bsyms mod 4) mod 4) 0))
    \<and> 0 \<notin> set (EncodeBytesToString t b False)
    \<and> EncodeBytesToString t b True
        = EncodeBytesToString t b False
            @ replicate ((4 - length (EncodeBytesToString t b False) mod 4) mod 4) 0
    \<and> 0 \<notin> set (EncodeBytes t b False)
    \<and> length (EncodeBytes t b False) = (4 * length b + 2) div 3
    \<and> EncodeBytes t b True
        = EncodeBytes t b False @ replicate ((4 - length (EncodeBytes t b False) mod 4) mod 4) 0"
proof -
  note S = nul_padding_string_input [OF assms]
  have s1: "\<forall>out. Encode t s True = Inr out \<longrightarrow>
            (\<exists>syms. Encode t s False = Inr syms \<and> 0 \<notin> set syms
               \<and> out = syms @ replicate ((4 - length syms mod 4) mod 4) 0)"
    using S(1,2) by blast
  have s2: "\<forall>bs. EncodeToBytes t s True = Inr bs \<longrightarrow>
            (\<exists>bsyms. EncodeToBytes t s False = Inr bsyms \<and> 0 \<notin> set bsyms
               \<and> length bsyms = (4 * length s + 2) div 3
               \<and> bs = bsyms @ replicate ((4 - length bsyms mod 4) mod 4) 0)"
    using S(3,4) by blast
  have b1: "0 \<notin> set (EncodeBytesToString t b False)"
    using S(1) [OF Encode_of_bytes] .
  have b2: "EncodeBytesToString t b True = EncodeBytesToString t b False
            @ replicate ((4 - length (EncodeBytesToString t b False) mod 4) mod 4) 0"
    using S(2) [OF Encode_of_bytes, of b] by (simp add: Encode_of_bytes)
  have b3: "0 \<notin> set (EncodeBytes t b False) \<and> length (EncodeBytes t b False) = (4 * length b + 2) div 3"
    using S(3) [OF EncodeToBytes_of_bytes, of b] by simp
  have b4: "EncodeBytes t b True
        = EncodeBytes t b False @ replicate ((4 - length (EncodeBytes t b False) mod 4) mod 4) 0"
    using S(4) [OF EncodeToBytes_of_bytes, of b] by (simp add: EncodeToBytes_of_bytes)
  from s1 s2 b1 b2 b3 b4 show ?thesis by blast
qed

theorem C10_nul_padding_witness:
  "Base64Encoding URL_alphabet (Some \<lparr>opt_padding = Some []\<rparr>) = Inr URL
   \<and> length URL_alphabet = 64 \<and> Padding URL = []
   \<and> Encode URL (str ''M'') True = Inr [84, 81, 0, 0]
   \<and> Encode URL (str ''M'') False = Inr (str ''TQ'')
   \<and> EncodeToBytes URL (str ''M'') True = Inr [84, 81, 0, 0]
   \<and> EncodeToBytes URL (str ''M'') False = Inr [84, 81]
   \<and> EncodeBytesToString URL [0x4D] True = EncodeBytesToString URL [0x4D] False @ [0, 0]
   \<and> EncodeBytes URL [0x4D] True = EncodeBytes URL [0x4D] False @ [0, 0]"
proof -
  have len: "length URL_alphabet = 64" by (simp add: URL_alphabet_codes)
  have pad: "Padding URL = []" by (simp add: URL_slots)
  have run: "Encode URL (str ''M'') True = Inr [84, 81, 0, 0]"
    "Encode URL (str ''M'') False = Inr (str ''TQ'')"
    "EncodeToBytes URL (str ''M'') True = Inr [84, 81, 0, 0]"
    "EncodeToBytes URL (str ''M'') False = Inr [84, 81]"
    by (simp_all add: run_simps URL_slots)
  have n: "length (EncodeBytesToString URL [0x4D] False) = 2" "length (EncodeBytes URL [0x4D] False) = 2"
    by (simp_all add: run_simps URL_slots)
  show ?thesis
    using C10_nul_padding [OF URL_constructed len pad, of "str ''M''" "[0x4D]"]
      URL_constructed len pad run n
    by (simp add: numeral_2_eq_2)
qed

section \<open>Decoding input made of alphabet symbols only\<close>

text \<open>The number of bytes stored inside a group (positions 1 and 2 have a nonzero mask)
  between position \<open>j\<close> and the end of a group of \<open>bytes\<close> symbols.\<close>

definition emits :: "nat \<Rightarrow> nat \<Rightarrow> nat" where
  "emits j bytes = (if j \<le> 1 \<and> 1 < bytes then 1 else 0) + (if j \<le> 2 \<and> 2 < bytes then 1 else 0)"

lemma mask_nonzero_iff: "j < 4 \<Longrightarrow> table_at DECODING_MASKS j \<noteq> 0 \<longleftrightarrow> j = 1 \<or> j = 2"
proof -
  assume "j < 4"
  then consider "j = 0" | "j = 1" | "j = 2" | "j = 3" by linarith
  then show ?thesis by cases (simp_all add: table_at_def DECODING_MASKS_def)
qed

lemma emits_step:
  "j < bytes \<Longrightarrow> emits j bytes = (if j = 1 \<or> j = 2 then 1 else 0) + emits (j + 1) bytes"
  by (auto simp: emits_def)

lemma DecodeToBytes_inner_valid:
  "(\<forall>q. fst (snd st) \<le> q \<and> q < fst (snd st) + (bytes - j)
        \<longrightarrow> q < length s \<and> BaseMapLookup t (Number (s ! q)) \<noteq> None) \<Longrightarrow>
   bytes \<le> 4 \<Longrightarrow>
   \<exists>c' xs'. DecodeToBytes_inner t s ip bytes j st
        = Completed (fst st + emits j bytes, fst (snd st) + (bytes - j), c', xs')
      \<and> length xs' = length (snd (snd (snd st)))"
proof (induction t s ip bytes j st rule: DecodeToBytes_inner.induct)
  case (1 t s ip bytes j index position carry result)
  show ?case
  proof (cases "j < bytes")
    case False
    then show ?thesis
      by (simp add: DecodeToBytes_inner.simps [of t s ip bytes j] emits_def)
  next
    case True
    then have here: "position < length s" "BaseMapLookup t (Number (s ! position)) \<noteq> None"
      using "1.prems"(1) by auto
    then obtain k where k: "BaseMapLookup t (StringCharCodeAt s position) = Some k"
      by (auto simp: StringCharCodeAt_def)
    have j4: "j < 4" using True "1.prems"(2) by simp
    have rest: "\<forall>q. position + 1 \<le> q \<and> q < position + 1 + (bytes - (j + 1))
        \<longrightarrow> q < length s \<and> BaseMapLookup t (Number (s ! q)) \<noteq> None"
      using "1.prems"(1) True by auto
    show ?thesis
    proof (cases "table_at DECODING_MASKS j \<noteq> 0")
      case mask: True
      let ?st1 = "(index + 1, position + 1, push_bit (table_at DECODING_SHIFTS j) (k AND table_at DECODING_MASKS j),
          result[index := of_nat (carry + drop_bit (table_at DECODING_DIGITS j) k)])"
      have r1: "\<forall>q. fst (snd ?st1) \<le> q \<and> q < fst (snd ?st1) + (bytes - (j + 1))
          \<longrightarrow> q < length s \<and> BaseMapLookup t (Number (s ! q)) \<noteq> None"
        using rest by simp
      from "1.IH"(1) [OF True refl refl k refl refl mask r1 "1.prems"(2)]
      obtain c' xs' where IH: "DecodeToBytes_inner t s ip bytes (j + 1) ?st1
          = Completed (index + 1 + emits (j + 1) bytes, position + 1 + (bytes - (j + 1)), c', xs')"
        "length xs' = length result"
        by auto
      have "DecodeToBytes_inner t s ip bytes j (index, position, carry, result)
          = DecodeToBytes_inner t s ip bytes (j + 1) ?st1"
        using True k mask by (simp add: DecodeToBytes_inner.simps [of t s ip bytes j] Let_def)
      moreover have "emits j bytes = 1 + emits (j + 1) bytes"
        using emits_step [OF True] mask mask_nonzero_iff [OF j4] by simp
      ultimately show ?thesis using IH True by simp
    next
      case mask: False
      let ?st1 = "(index, position + 1, carry + push_bit (table_at DECODING_SHIFTS j) k, result)"
      have r1: "\<forall>q. fst (snd ?st1) \<le> q \<and> q < fst (snd ?st1) + (bytes - (j + 1))
          \<longrightarrow> q < length s \<and> BaseMapLookup t (Number (s ! q)) \<noteq> None"
        using rest by simp
      from "1.IH"(2) [OF True refl refl k refl refl mask r1 "1.prems"(2)]
      obtain c' xs' where IH: "DecodeToBytes_inner t s ip bytes (j + 1) ?st1
          = Completed (index + emits (j + 1) bytes, position + 1 + (bytes - (j + 1)), c', xs')"
        "length xs' = length result"
        by auto
      have "DecodeToBytes_inner t s ip bytes j (index, position, carry, result)
          = DecodeToBytes_inner t s ip bytes (j + 1) ?st1"
        using True k mask by (simp add: DecodeToBytes_inner.simps [of t s ip bytes j] Let_def)
      moreover have "emits j bytes = emits (j + 1) bytes"
        using emits_step [OF True] mask mask_nonzero_iff [OF j4] by simp
      ultimately show ?thesis using IH True by simp
    qed
  qed
qed

lemma DecodeToBytes_inner_single:
  assumes "position < length s" and "BaseMapLookup t (Number (s ! position)) = Some k"
  shows "DecodeToBytes_inner t s ip 1 0 (index, position, 0, xs)
     = Completed (index, position + 1, push_bit 2 k, xs)"
  using assms
  by (simp add: DecodeToBytes_inner.simps [of t s ip 1 0] DecodeToBytes_inner.simps [of t s ip 1 1]
      DecodeToBytes_inner.simps [of t s ip "Suc 0" 0] DecodeToBytes_inner.simps [of t s ip "Suc 0" "Suc 0"]
      StringCharCodeAt_def table_at_def DECODING_MASKS_def DECODING_SHIFTS_def Let_def)

text \<open>The number of bytes decoded from \<open>r\<close> remaining symbols.\<close>

definition nbytes :: "nat \<Rightarrow> nat" where
  "nbytes r = 3 * (r div 4) + r mod 4"

lemma nbytes_step: "4 \<le> r \<Longrightarrow> nbytes r = 3 + nbytes (r - 4)"
  unfolding nbytes_def by (simp add: le_div_geq le_mod_geq)

lemma nbytes_small: "r < 4 \<Longrightarrow> nbytes r = r"
  by (simp add: nbytes_def)

lemma DecodeToBytes_loop_valid:
  "(\<forall>q. i \<le> q \<and> q < length s \<longrightarrow> BaseMapLookup t (Number (s ! q)) \<noteq> None) \<Longrightarrow>
   fst (snd st) = i \<Longrightarrow> i \<le> length s \<Longrightarrow>
   \<exists>p' xs'. DecodeToBytes_loop t s ip ac i st = Inr (fst st + nbytes (length s - i), p', xs')
      \<and> length xs' = length (snd (snd st))
      \<and> ((length s - i) mod 4 = 1 \<longrightarrow> fst st + nbytes (length s - i) \<le> length xs' \<longrightarrow>
           (\<forall>k. BaseMapLookup t (Number (last s)) = Some k \<longrightarrow>
              xs' ! (fst st + nbytes (length s - i) - 1) = of_nat (push_bit 2 k)))"
proof (induction t s ip ac i st rule: DecodeToBytes_loop.induct)
  case (1 t s ip ac i index position result)
  have pos: "position = i" using "1.prems"(2) by simp
  show ?case
  proof (cases "i < length s")
    case False
    then have "DecodeToBytes_loop t s ip ac i (index, position, result) = Inr (index, position, result)"
      by (simp add: DecodeToBytes_loop.simps [of t s ip ac i])
    then show ?thesis using False "1.prems"(3)
      by (simp add: nbytes_def)
  next
    case True
    let ?bytes = "GetDecodingBytes (length s) position"
    have b: "?bytes = (if length s - i < 4 then length s - i else 4)" "?bytes \<le> 4" "0 < ?bytes"
      using True pos by (simp_all add: GetDecodingBytes_def Let_def)
    have valid: "\<forall>q. fst (snd (index, position, 0::nat, result)) \<le> q
        \<and> q < fst (snd (index, position, 0::nat, result)) + (?bytes - 0)
        \<longrightarrow> q < length s \<and> BaseMapLookup t (Number (s ! q)) \<noteq> None"
      using "1.prems"(1) pos b(1) by (auto split: if_splits)
    from DecodeToBytes_inner_valid [OF valid b(2), of ip]
    obtain c' xs1 where inner: "DecodeToBytes_inner t s ip ?bytes 0 (index, position, 0, result)
        = Completed (index + emits 0 ?bytes, position + ?bytes, c', xs1)"
      "length xs1 = length result"
      by auto
    let ?xs2 = "xs1[index + emits 0 ?bytes := of_nat c']"
    have step: "DecodeToBytes_loop t s ip ac i (index, position, result)
        = DecodeToBytes_loop t s ip ac (i + 4) (index + emits 0 ?bytes + 1, position + ?bytes, ?xs2)"
      using True inner(1) by (simp add: DecodeToBytes_loop.simps [of t s ip ac i] Let_def)
    show ?thesis
    proof (cases "length s - i < 4")
      case short: True
      then have bytes: "?bytes = length s - i" using b(1) by simp
      have exit: "DecodeToBytes_loop t s ip ac (i + 4) (index + emits 0 ?bytes + 1, position + ?bytes, ?xs2)
          = Inr (index + emits 0 ?bytes + 1, position + ?bytes, ?xs2)"
      proof -
        have "\<not> i + 4 < length s" using short by arith
        then show ?thesis by (simp add: DecodeToBytes_loop.simps [of t s ip ac "i + 4"])
      qed
      have count: "emits 0 ?bytes + 1 = nbytes (length s - i)"
        using short b(3) bytes by (auto simp: emits_def nbytes_small)
      have last: "?xs2 ! (index + nbytes (length s - i) - 1) = of_nat (push_bit 2 k)"
        if one: "(length s - i) mod 4 = 1" and room: "index + nbytes (length s - i) \<le> length ?xs2"
          and k: "BaseMapLookup t (Number (last s)) = Some k" for k
      proof -
        have r1: "length s - i = 1" using one short by simp
        then have li: "i = length s - 1" "s \<noteq> []" using True by auto
        then have "s ! position = last s" using pos by (simp add: last_conv_nth)
        then have "DecodeToBytes_inner t s ip 1 0 (index, position, 0, result)
            = Completed (index, position + 1, push_bit 2 k, result)"
          using DecodeToBytes_inner_single [of position s t k ip index result] k True pos by simp
        then have "c' = push_bit 2 k" "emits 0 ?bytes = 0"
          using inner(1) bytes r1 by (simp_all add: emits_def)
        moreover have "nbytes (length s - i) = 1" using r1 by (simp add: nbytes_def)
        ultimately show ?thesis using room by simp
      qed
      show ?thesis
        using step exit count inner(2) last
        by (simp add: add.assoc)
    next
      case long: False
      then have bytes: "?bytes = 4" using b(1) by simp
      have e: "emits 0 ?bytes = 2" using bytes by (simp add: emits_def)
      let ?st2 = "(index + emits 0 ?bytes + 1, position + ?bytes, ?xs2)"
      have v2: "\<forall>q. i + 4 \<le> q \<and> q < length s \<longrightarrow> BaseMapLookup t (Number (s ! q)) \<noteq> None"
        using "1.prems"(1) by auto
      have p2: "fst (snd ?st2) = i + 4" using pos bytes by simp
      have l2: "i + 4 \<le> length s" using long by simp
      from "1.IH"(1) [OF True refl inner(1) refl refl refl v2 p2 l2]
      obtain p' xs' where IH: "DecodeToBytes_loop t s ip ac (i + 4) ?st2
          = Inr (fst ?st2 + nbytes (length s - (i + 4)), p', xs')"
        "length xs' = length (snd (snd ?st2))"
        "(length s - (i + 4)) mod 4 = 1 \<longrightarrow> fst ?st2 + nbytes (length s - (i + 4)) \<le> length xs' \<longrightarrow>
           (\<forall>k. BaseMapLookup t (Number (last s)) = Some k \<longrightarrow>
              xs' ! (fst ?st2 + nbytes (length s - (i + 4)) - 1) = of_nat (push_bit 2 k))"
        by blast
      have count: "fst ?st2 + nbytes (length s - (i + 4)) = index + nbytes (length s - i)"
        using nbytes_step [of "length s - i"] long e by simp
      have m: "(length s - (i + 4)) mod 4 = (length s - i) mod 4"
        using long by (simp add: le_mod_geq)
      note IH' = IH [unfolded count m]
      have l2: "length xs' = length result" using IH(2) inner(2) by simp
      have "DecodeToBytes_loop t s ip ac i (index, position, result)
          = Inr (index + nbytes (length s - i), p', xs')"
        using step IH'(1) by simp
      then show ?thesis using l2 IH'(3) by auto
    qed
  qed
qed


lemma GetInverseCapacity_nbytes: "GetInverseCapacity n = nbytes n"
  unfolding GetInverseCapacity_def nbytes_def by presburger

lemma DecodeToBytes_valid:
  assumes "\<forall>c \<in> set s. BaseMapLookup t (Number c) \<noteq> None"
  shows "\<exists>out. DecodeToBytes t s ip ac = Inr out
     \<and> length out = 3 * (length s div 4) + length s mod 4
     \<and> (length s mod 4 = 1 \<longrightarrow>
          (\<forall>k. BaseMapLookup t (Number (last s)) = Some k \<longrightarrow> last out = of_nat (push_bit 2 k)))"
proof (cases "s = []")
  case True
  then show ?thesis by (simp add: DecodeToBytes_def)
next
  case False
  let ?cap = "GetInverseCapacity (length s)"
  have cap: "?cap = nbytes (length s)" by (rule GetInverseCapacity_nbytes)
  have valid: "\<forall>q. 0 \<le> q \<and> q < length s \<longrightarrow> BaseMapLookup t (Number (s ! q)) \<noteq> None"
    using assms by simp
  from DecodeToBytes_loop_valid [OF valid, of "(0, 0, replicate ?cap 0)" ip ac]
  obtain p' xs' where loop:
    "DecodeToBytes_loop t s ip ac 0 (0, 0, replicate ?cap 0) = Inr (nbytes (length s), p', xs')"
    "length xs' = ?cap"
    "length s mod 4 = 1 \<longrightarrow> nbytes (length s) \<le> length xs' \<longrightarrow>
       (\<forall>k. BaseMapLookup t (Number (last s)) = Some k \<longrightarrow>
          xs' ! (nbytes (length s) - 1) = of_nat (push_bit 2 k))"
    by auto
  have out: "DecodeToBytes t s ip ac = Inr xs'"
    using False loop(1) cap by (simp add: DecodeToBytes_def Let_def)
  have "last xs' = xs' ! (nbytes (length s) - 1)" if "length s mod 4 = 1"
  proof -
    have "0 < nbytes (length s)" using that by (simp add: nbytes_def)
    then have "xs' \<noteq> []" using loop(2) cap by auto
    then show ?thesis using loop(2) cap by (simp add: last_conv_nth)
  qed
  then show ?thesis using out loop(2,3) cap by (simp add: nbytes_def)
qed

subsection \<open>The same for the decoder with string output\<close>

lemma Decode_inner_valid:
  "(\<forall>q. fst st \<le> q \<and> q < fst st + (bytes - j)
        \<longrightarrow> q < length s \<and> BaseMapLookup t (Number (s ! q)) \<noteq> None) \<Longrightarrow>
   bytes \<le> 4 \<Longrightarrow>
   \<exists>c' r'. Decode_inner t s ip bytes j st = Completed (fst st + (bytes - j), c', r')
      \<and> length r' = length (snd (snd st)) + emits j bytes"
proof (induction t s ip bytes j st rule: Decode_inner.induct)
  case (1 t s ip bytes j position carry result)
  show ?case
  proof (cases "j < bytes")
    case False
    then show ?thesis
      by (simp add: Decode_inner.simps [of t s ip bytes j] emits_def)
  next
    case True
    then have here: "position < length s" "BaseMapLookup t (Number (s ! position)) \<noteq> None"
      using "1.prems"(1) by auto
    then obtain k where k: "BaseMapLookup t (StringCharCodeAt s position) = Some k"
      by (auto simp: StringCharCodeAt_def)
    have j4: "j < 4" using True "1.prems"(2) by simp
    have rest: "\<forall>q. position + 1 \<le> q \<and> q < position + 1 + (bytes - (j + 1))
        \<longrightarrow> q < length s \<and> BaseMapLookup t (Number (s ! q)) \<noteq> None"
      using "1.prems"(1) True by auto
    show ?thesis
    proof (cases "table_at DECODING_MASKS j \<noteq> 0")
      case mask: True
      let ?st1 = "(position + 1, push_bit (table_at DECODING_SHIFTS j) (k AND table_at DECODING_MASKS j),
          result @ StringFromCharCode (carry + drop_bit (table_at DECODING_DIGITS j) k))"
      have r1: "\<forall>q. fst ?st1 \<le> q \<and> q < fst ?st1 + (bytes - (j + 1))
          \<longrightarrow> q < length s \<and> BaseMapLookup t (Number (s ! q)) \<noteq> None"
        using rest by simp
      from "1.IH"(1) [OF True refl refl k refl refl mask refl r1 "1.prems"(2)]
      obtain c' r' where IH: "Decode_inner t s ip bytes (j + 1) ?st1
          = Completed (position + 1 + (bytes - (j + 1)), c', r')"
        "length r' = length result + 1 + emits (j + 1) bytes"
        by (auto simp: StringFromCharCode_def)
      have "Decode_inner t s ip bytes j (position, carry, result)
          = Decode_inner t s ip bytes (j + 1) ?st1"
        using True k mask by (simp add: Decode_inner.simps [of t s ip bytes j] Let_def)
      moreover have "emits j bytes = 1 + emits (j + 1) bytes"
        using emits_step [OF True] mask mask_nonzero_iff [OF j4] by simp
      ultimately show ?thesis using IH True by simp
    next
      case mask: False
      let ?st1 = "(position + 1, carry + push_bit (table_at DECODING_SHIFTS j) k, result)"
      have r1: "\<forall>q. fst ?st1 \<le> q \<and> q < fst ?st1 + (bytes - (j + 1))
          \<longrightarrow> q < length s \<and> BaseMapLookup t (Number (s ! q)) \<noteq> None"
        using rest by simp
      from "1.IH"(2) [OF True refl refl k refl refl mask r1 "1.prems"(2)]
      obtain c' r' where IH: "Decode_inner t s ip bytes (j + 1) ?st1
          = Completed (position + 1 + (bytes - (j + 1)), c', r')"
        "length r' = length result + emits (j + 1) bytes"
        by auto
      have "Decode_inner t s ip bytes j (position, carry, result)
          = Decode_inner t s ip bytes (j + 1) ?st1"
        using True k mask by (simp add: Decode_inner.simps [of t s ip bytes j] Let_def)
      moreover have "emits j bytes = emits (j + 1) bytes"
        using emits_step [OF True] mask mask_nonzero_iff [OF j4] by simp
      ultimately show ?thesis using IH True by simp
    qed
  qed
qed

lemma Decode_inner_single:
  assumes "position < length s" and "BaseMapLookup t (Number (s ! position)) = Some k"
  shows "Decode_inner t s ip 1 0 (position, 0, r) = Completed (position + 1, push_bit 2 k, r)"
  using assms
  by (simp add: Decode_inner.simps [of t s ip 1 0] Decode_inner.simps [of t s ip 1 1]
      Decode_inner.simps [of t s ip "Suc 0" 0] Decode_inner.simps [of t s ip "Suc 0" "Suc 0"]
      StringCharCodeAt_def table_at_def DECODING_MASKS_def DECODING_SHIFTS_def Let_def)

lemma Decode_loop_valid:
  "(\<forall>q. i \<le> q \<and> q < length s \<longrightarrow> BaseMapLookup t (Number (s ! q)) \<noteq> None) \<Longrightarrow>
   fst st = i \<Longrightarrow> i \<le> length s \<Longrightarrow>
   \<exists>p' r'. Decode_loop t s ip ac i st = Inr (p', r')
      \<and> length r' = length (snd st) + nbytes (length s - i)
      \<and> ((length s - i) mod 4 = 1 \<longrightarrow>
           (\<forall>k. BaseMapLookup t (Number (last s)) = Some k \<longrightarrow> last r' = push_bit 2 k mod 65536))"
proof (induction t s ip ac i st rule: Decode_loop.induct)
  case (1 t s ip ac i position result)
  have pos: "position = i" using "1.prems"(2) by simp
  show ?case
  proof (cases "i < length s")
    case False
    then have "Decode_loop t s ip ac i (position, result) = Inr (position, result)"
      by (simp add: Decode_loop.simps [of t s ip ac i])
    then show ?thesis using False "1.prems"(3)
      by (simp add: nbytes_def)
  next
    case True
    let ?bytes = "GetDecodingBytes (length s) position"
    have b: "?bytes = (if length s - i < 4 then length s - i else 4)" "?bytes \<le> 4" "0 < ?bytes"
      using True pos by (simp_all add: GetDecodingBytes_def Let_def)
    have valid: "\<forall>q. fst (position, 0::nat, result) \<le> q
        \<and> q < fst (position, 0::nat, result) + (?bytes - 0)
        \<longrightarrow> q < length s \<and> BaseMapLookup t (Number (s ! q)) \<noteq> None"
      using "1.prems"(1) pos b(1) by (auto split: if_splits)
    from Decode_inner_valid [OF valid b(2), of ip]
    obtain c' r1 where inner: "Decode_inner t s ip ?bytes 0 (position, 0, result)
        = Completed (position + ?bytes, c', r1)"
      "length r1 = length result + emits 0 ?bytes"
      by auto
    let ?r2 = "r1 @ StringFromCharCode c'"
    have step: "Decode_loop t s ip ac i (position, result)
        = Decode_loop t s ip ac (i + 4) (position + ?bytes, ?r2)"
      using True inner(1) by (simp add: Decode_loop.simps [of t s ip ac i] Let_def)
    show ?thesis
    proof (cases "length s - i < 4")
      case short: True
      then have bytes: "?bytes = length s - i" using b(1) by simp
      have exit: "Decode_loop t s ip ac (i + 4) (position + ?bytes, ?r2) = Inr (position + ?bytes, ?r2)"
      proof -
        have "\<not> i + 4 < length s" using short by arith
        then show ?thesis by (simp add: Decode_loop.simps [of t s ip ac "i + 4"])
      qed
      have count: "emits 0 ?bytes + 1 = nbytes (length s - i)"
        using short b(3) bytes by (auto simp: emits_def nbytes_small)
      have last: "last ?r2 = push_bit 2 k mod 65536"
        if one: "(length s - i) mod 4 = 1" and k: "BaseMapLookup t (Number (last s)) = Some k" for k
      proof -
        have r1: "length s - i = 1" using one short by simp
        then have li: "i = length s - 1" "s \<noteq> []" using True by auto
        then have "s ! position = last s" using pos by (simp add: last_conv_nth)
        then have "Decode_inner t s ip 1 0 (position, 0, result)
            = Completed (position + 1, push_bit 2 k, result)"
          using Decode_inner_single [of position s t k ip result] k True pos by simp
        then have "c' = push_bit 2 k"
          using inner(1) bytes r1 by simp
        then show ?thesis by (simp add: StringFromCharCode_def)
      qed
      have "length ?r2 = length result + nbytes (length s - i)"
        using inner(2) count by (simp add: StringFromCharCode_def)
      then show ?thesis
        using step exit last by auto
    next
      case long: False
      then have bytes: "?bytes = 4" using b(1) by simp
      have e: "emits 0 ?bytes = 2" using bytes by (simp add: emits_def)
      let ?st2 = "(position + ?bytes, ?r2)"
      have v2: "\<forall>q. i + 4 \<le> q \<and> q < length s \<longrightarrow> BaseMapLookup t (Number (s ! q)) \<noteq> None"
        using "1.prems"(1) by auto
      have p2: "fst ?st2 = i + 4" using pos bytes by simp
      have l2: "i + 4 \<le> length s" using long by simp
      from "1.IH"(1) [OF True refl inner(1) refl refl v2 p2 l2]
      obtain p' r' where IH: "Decode_loop t s ip ac (i + 4) ?st2 = Inr (p', r')"
        "length r' = length (snd ?st2) + nbytes (length s - (i + 4))"
        "(length s - (i + 4)) mod 4 = 1 \<longrightarrow>
           (\<forall>k. BaseMapLookup t (Number (last s)) = Some k \<longrightarrow> last r' = push_bit 2 k mod 65536)"
        by blast
      have count: "length (snd ?st2) + nbytes (length s - (i + 4)) = length result + nbytes (length s - i)"
        using nbytes_step [of "length s - i"] long e inner(2) by (simp add: StringFromCharCode_def)
      have m: "(length s - (i + 4)) mod 4 = (length s - i) mod 4"
        using long by (simp add: le_mod_geq)
      note IH' = IH [unfolded count m]
      have "Decode_loop t s ip ac i (position, result) = Inr (p', r')"
        using step IH'(1) by simp
      then show ?thesis using IH'(2,3) by auto
    qed
  qed
qed

lemma Decode_valid:
  assumes "\<forall>c \<in> set s. BaseMapLookup t (Number c) \<noteq> None"
  shows "\<exists>out. Decode t s ip ac = Inr out
     \<and> length out = 3 * (length s div 4) + length s mod 4
     \<and> (length s mod 4 = 1 \<longrightarrow>
          (\<forall>k. BaseMapLookup t (Number (last s)) = Some k \<longrightarrow> last out = push_bit 2 k mod 65536))"
proof (cases "s = []")
  case True
  then show ?thesis by (simp add: Decode_def)
next
  case False
  have valid: "\<forall>q. 0 \<le> q \<and> q < length s \<longrightarrow> BaseMapLookup t (Number (s ! q)) \<noteq> None"
    using assms by simp
  from Decode_loop_valid [OF valid, of "(0, [])" ip ac]
  obtain p' r' where loop:
    "Decode_loop t s ip ac 0 (0, []) = Inr (p', r')"
    "length r' = nbytes (length s)"
    "length s mod 4 = 1 \<longrightarrow>
       (\<forall>k. BaseMapLookup t (Number (last s)) = Some k \<longrightarrow> last r' = push_bit 2 k mod 65536)"
    by auto
  have "Decode t s ip ac = Inr r'"
    using False loop(1) by (simp add: Decode_def)
  then show ?thesis using loop(2,3) by (simp add: nbytes_def)
qed

section \<open>The carry after a group\<close>

text \<open>
  C2, at an input where the decoder emits a byte for a single leftover symbol. With the basic
  instance and its default options, the one-symbol input "B" (index 1, input length congruent
  to 1 modulo 4) decodes to the one byte 04, with byte output and with string output: after the
  group the carry, the index shifted left by two bits, is stored whatever the number of symbols
  consumed. The five symbols "TWFuB" decode to the three bytes of "TWFu" followed by that 04,
  and the URL-safe instance does the same. When the same single symbol is followed by a padding
  character ("B="), the group ends before the carry is stored and nothing is emitted.
\<close>

theorem C2_single_symbol_emits_byte:
  "length (str ''B'') mod 4 = 1
   \<and> decodeToBytes BASIC (str ''B'') None = Inr [0x04]
   \<and> decode BASIC (str ''B'') None = Inr [0x04]
   \<and> decodeToBytes URL (str ''B'') None = Inr [0x04]
   \<and> length (str ''TWFuB'') mod 4 = 1
   \<and> decodeToBytes BASIC (str ''TWFuB'') None = Inr [0x4D, 0x61, 0x6E, 0x04]
   \<and> decodeToBytes BASIC (str ''TWFu'') None = Inr [0x4D, 0x61, 0x6E]
   \<and> decodeToBytes BASIC (str ''B='') None = Inr []
   \<and> decode BASIC (str ''B='') None = Inr []"
  by (simp add: run_simps BASIC_slots URL_slots)

section \<open>The round trip through a padded encoding\<close>

subsection \<open>Three bytes and their four indices\<close>

lemma bits_first:
  "x < 256 \<Longrightarrow> y < 256 \<Longrightarrow>
   push_bit 2 (drop_bit 2 x) + drop_bit 4 (push_bit 4 (x AND 3) + drop_bit 4 y) = (x::nat)"
  by (simp add: push_bit_eq_mult drop_bit_eq_div and_3)

lemma bits_second:
  "x < 256 \<Longrightarrow> y < 256 \<Longrightarrow> z < 256 \<Longrightarrow>
   push_bit 4 ((push_bit 4 (x AND 3) + drop_bit 4 y) AND 15)
     + drop_bit 2 (push_bit 2 (y AND 15) + drop_bit 6 z) = (y::nat)"
  by (simp add: push_bit_eq_mult drop_bit_eq_div and_3 and_15)

lemma bits_third:
  "y < 256 \<Longrightarrow> z < 256 \<Longrightarrow>
   push_bit 6 ((push_bit 2 (y AND 15) + drop_bit 6 z) AND 3) + (z AND 63) = (z::nat)"
  by (simp add: push_bit_eq_mult drop_bit_eq_div and_3 and_15 and_63)


lemma index_bounds:
  "x < 256 \<Longrightarrow> drop_bit 2 (x::nat) < 64"
  "y < 256 \<Longrightarrow> push_bit 4 (x AND 3) + drop_bit 4 (y::nat) < 64"
  "z < 256 \<Longrightarrow> push_bit 2 (y AND 15) + drop_bit 6 (z::nat) < 64"
  "(z::nat) AND 63 < 64"
  "push_bit 4 ((x::nat) AND 3) < 64"
  "push_bit 2 ((y::nat) AND 15) < 64"
proof -
  have m: "x mod 4 \<le> 3" "y mod 16 \<le> 15" by simp_all
  show "x < 256 \<Longrightarrow> drop_bit 2 x < 64" by (simp add: drop_bit_eq_div)
  show "y < 256 \<Longrightarrow> push_bit 4 (x AND 3) + drop_bit 4 y < 64"
    using m(1) by (simp add: push_bit_eq_mult drop_bit_eq_div and_3)
  show "z < 256 \<Longrightarrow> push_bit 2 (y AND 15) + drop_bit 6 z < 64"
    using m(2) by (simp add: push_bit_eq_mult drop_bit_eq_div and_15)
  show "z AND 63 < 64" by (simp add: and_63)
  show "push_bit 4 (x AND 3) < 64" using m(1) by (simp add: push_bit_eq_mult and_3)
  show "push_bit 2 (y AND 15) < 64" using m(2) by (simp add: push_bit_eq_mult and_15)
qed

subsection \<open>The symbols of an encoding, group by group\<close>

text \<open>The indices of the symbols that encode a sequence of byte values, three bytes at a time,
  written with the shifts and masks of the source's tables.\<close>

fun symbol_indices :: "nat list \<Rightarrow> nat list" where
  "symbol_indices [] = []"
| "symbol_indices [x] = [drop_bit 2 x, push_bit 4 (x AND 3)]"
| "symbol_indices [x, y] =
     [drop_bit 2 x, push_bit 4 (x AND 3) + drop_bit 4 y, push_bit 2 (y AND 15)]"
| "symbol_indices (x # y # z # rest) =
     [drop_bit 2 x, push_bit 4 (x AND 3) + drop_bit 4 y, push_bit 2 (y AND 15) + drop_bit 6 z,
      z AND 63] @ symbol_indices rest"

lemmas encoding_tables = table_at_def ENCODING_SHIFTS_def ENCODING_MASKS_def ENCODING_DIGITS_def

lemma Encode_inner_stop: "\<not> j < bytes \<Longrightarrow> Encode_inner t s bytes j st = Inr st"
  by (cases st) (simp add: Encode_inner.simps [of t s bytes j])

lemma Encode_inner_step0:
  "0 < bytes \<Longrightarrow> p < length s \<Longrightarrow> s ! p < 256 \<Longrightarrow> Alphabet t = a \<Longrightarrow> length a = 64 \<Longrightarrow>
   Encode_inner t s bytes 0 (p, 0, r) =
     Encode_inner t s bytes 1 (p + 1, push_bit 4 (s ! p AND 3), r @ [a ! drop_bit 2 (s ! p)])"
  using index_bounds(1) [of "s ! p"]
  by (simp add: Encode_inner.simps [of t s bytes 0] StringCharCodeAt_def char_at_def Let_def
      encoding_tables)

lemma Encode_inner_step1:
  "1 < bytes \<Longrightarrow> p < length s \<Longrightarrow> s ! p < 256 \<Longrightarrow> c + drop_bit 4 (s ! p) < 64 \<Longrightarrow>
   Alphabet t = a \<Longrightarrow> length a = 64 \<Longrightarrow>
   Encode_inner t s bytes 1 (p, c, r) =
     Encode_inner t s bytes 2 (p + 1, push_bit 2 (s ! p AND 15), r @ [a ! (c + drop_bit 4 (s ! p))])"
  by (simp add: Encode_inner.simps [of t s bytes "Suc 0"] StringCharCodeAt_def char_at_def Let_def
      encoding_tables numeral_2_eq_2)

lemma Encode_inner_step2:
  "2 < bytes \<Longrightarrow> p < length s \<Longrightarrow> s ! p < 256 \<Longrightarrow> c + drop_bit 6 (s ! p) < 64 \<Longrightarrow>
   Alphabet t = a \<Longrightarrow> length a = 64 \<Longrightarrow>
   Encode_inner t s bytes 2 (p, c, r) =
     Encode_inner t s bytes 3 (p + 1, s ! p AND 63, r @ [a ! (c + drop_bit 6 (s ! p))])"
  by (simp add: Encode_inner.simps [of t s bytes 2] StringCharCodeAt_def char_at_def Let_def
      encoding_tables)

lemma Encode_inner_3:
  assumes "Alphabet t = a" and "length a = 64" and "p + 3 \<le> length s"
    and "s ! p < 256" and "s ! (p + 1) < 256" and "s ! (p + 2) < 256"
  shows "Encode_inner t s 3 0 (p, 0, r) =
     Inr (p + 3, s ! (p + 2) AND 63,
          r @ [a ! drop_bit 2 (s ! p),
               a ! (push_bit 4 (s ! p AND 3) + drop_bit 4 (s ! (p + 1))),
               a ! (push_bit 2 (s ! (p + 1) AND 15) + drop_bit 6 (s ! (p + 2)))])"
proof -
  note b = index_bounds(2) [OF assms(5), of "s ! p"] index_bounds(3) [OF assms(6), of "s ! (p + 1)"]
  have "Encode_inner t s 3 0 (p, 0, r)
      = Encode_inner t s 3 1 (p + 1, push_bit 4 (s ! p AND 3), r @ [a ! drop_bit 2 (s ! p)])"
    using assms by (intro Encode_inner_step0) simp_all
  also have "\<dots> = Encode_inner t s 3 2 (p + 1 + 1, push_bit 2 (s ! (p + 1) AND 15),
      (r @ [a ! drop_bit 2 (s ! p)]) @ [a ! (push_bit 4 (s ! p AND 3) + drop_bit 4 (s ! (p + 1)))])"
    using assms b(1) by (intro Encode_inner_step1) simp_all
  also have "\<dots> = Encode_inner t s 3 3 (p + 1 + 1 + 1, s ! (p + 1 + 1) AND 63,
      ((r @ [a ! drop_bit 2 (s ! p)]) @ [a ! (push_bit 4 (s ! p AND 3) + drop_bit 4 (s ! (p + 1)))])
        @ [a ! (push_bit 2 (s ! (p + 1) AND 15) + drop_bit 6 (s ! (p + 1 + 1)))])"
    using assms b(2) by (intro Encode_inner_step2) (simp_all add: add.assoc)
  also have "\<dots> = Inr (p + 1 + 1 + 1, s ! (p + 1 + 1) AND 63,
      ((r @ [a ! drop_bit 2 (s ! p)]) @ [a ! (push_bit 4 (s ! p AND 3) + drop_bit 4 (s ! (p + 1)))])
        @ [a ! (push_bit 2 (s ! (p + 1) AND 15) + drop_bit 6 (s ! (p + 1 + 1)))])"
    by (rule Encode_inner_stop) simp
  finally show ?thesis by (simp add: add.assoc)
qed

lemma Encode_inner_2:
  assumes "Alphabet t = a" and "length a = 64" and "p + 2 \<le> length s"
    and "s ! p < 256" and "s ! (p + 1) < 256"
  shows "Encode_inner t s 2 0 (p, 0, r) =
     Inr (p + 2, push_bit 2 (s ! (p + 1) AND 15),
          r @ [a ! drop_bit 2 (s ! p),
               a ! (push_bit 4 (s ! p AND 3) + drop_bit 4 (s ! (p + 1)))])"
proof -
  note b = index_bounds(2) [OF assms(5), of "s ! p"]
  have "Encode_inner t s 2 0 (p, 0, r)
      = Encode_inner t s 2 1 (p + 1, push_bit 4 (s ! p AND 3), r @ [a ! drop_bit 2 (s ! p)])"
    using assms by (intro Encode_inner_step0) simp_all
  also have "\<dots> = Encode_inner t s 2 2 (p + 1 + 1, push_bit 2 (s ! (p + 1) AND 15),
      (r @ [a ! drop_bit 2 (s ! p)]) @ [a ! (push_bit 4 (s ! p AND 3) + drop_bit 4 (s ! (p + 1)))])"
    using assms b(1) by (intro Encode_inner_step1) simp_all
  also have "\<dots> = Inr (p + 1 + 1, push_bit 2 (s ! (p + 1) AND 15),
      (r @ [a ! drop_bit 2 (s ! p)]) @ [a ! (push_bit 4 (s ! p AND 3) + drop_bit 4 (s ! (p + 1)))])"
    by (rule Encode_inner_stop) simp
  finally show ?thesis by (simp add: add.assoc)
qed

lemma Encode_inner_1:
  assumes "Alphabet t = a" and "length a = 64" and "p + 1 \<le> length s" and "s ! p < 256"
  shows "Encode_inner t s 1 0 (p, 0, r) =
     Inr (p + 1, push_bit 4 (s ! p AND 3), r @ [a ! drop_bit 2 (s ! p)])"
proof -
  have "Encode_inner t s 1 0 (p, 0, r)
      = Encode_inner t s 1 1 (p + 1, push_bit 4 (s ! p AND 3), r @ [a ! drop_bit 2 (s ! p)])"
    using assms by (intro Encode_inner_step0) simp_all
  also have "\<dots> = Inr (p + 1, push_bit 4 (s ! p AND 3), r @ [a ! drop_bit 2 (s ! p)])"
    by (rule Encode_inner_stop) simp
  finally show ?thesis .
qed


lemma Encode_loop_stop: "\<not> i < length s \<Longrightarrow> Encode_loop t s i st = Inr st"
  by (cases st) (simp add: Encode_loop.simps [of t s i])

lemma Encode_loop_content:
  "Alphabet t = a \<Longrightarrow> length a = 64 \<Longrightarrow> fst st = i \<Longrightarrow> i \<le> length s \<Longrightarrow>
   (\<forall>x \<in> set (drop i s). x < 256) \<Longrightarrow>
   \<exists>p'. Encode_loop t s i st = Inr (p', snd st @ map (\<lambda>k. a ! k) (symbol_indices (drop i s)))"
proof (induction t s i st rule: Encode_loop.induct)
  case (1 t s i position result)
  have pos: "position = i" using "1.prems"(3) by simp
  note wf = "1.prems"(1,2)
  show ?case
  proof (cases "i < length s")
    case False
    then show ?thesis using "1.prems"(4) by (simp add: Encode_loop_stop)
  next
    case True
    let ?bytes = "GetEncodingBytes (length s) i"
    have d1: "drop i s = s ! i # drop (i + 1) s" using True by (simp add: Cons_nth_drop_Suc)
    have x: "s ! i < 256" using "1.prems"(5) d1 by (metis list.set_intros(1))
    have sym: "ToString (char_at (Alphabet t) c) = [a ! c]" if "c < 64" for c
      using that wf by (simp add: char_at_def)
    consider (one) "length s - i = 1" | (two) "length s - i = 2" | (more) "3 \<le> length s - i"
      using True by linarith
    then show ?thesis
    proof cases
      case one
      then have b: "?bytes = 1" by (simp add: GetEncodingBytes_def)
      have d: "drop i s = [s ! i]" using d1 one by simp
      have inner: "Encode_inner t s ?bytes 0 (position, 0, result)
          = Inr (i + 1, push_bit 4 (s ! i AND 3), result @ [a ! drop_bit 2 (s ! i)])"
        unfolding b pos using wf True x by (intro Encode_inner_1) simp_all
      have "Encode_loop t s i (position, result)
          = Encode_loop t s (i + 3) (i + 1, (result @ [a ! drop_bit 2 (s ! i)])
              @ [a ! push_bit 4 (s ! i AND 3)])"
        using True inner sym [OF index_bounds(5)]
        by (simp add: Encode_loop.simps [of t s i] Let_def)
      also have "\<dots> = Inr (i + 1, (result @ [a ! drop_bit 2 (s ! i)]) @ [a ! push_bit 4 (s ! i AND 3)])"
        using one by (intro Encode_loop_stop) simp
      finally show ?thesis using d by simp
    next
      case two
      then have b: "?bytes = 2" by (simp add: GetEncodingBytes_def)
      have i1: "i + 1 < length s" using two by simp
      have d2: "drop (i + 1) s = [s ! (i + 1)]" using i1 two by (simp add: Cons_nth_drop_Suc [symmetric])
      have d: "drop i s = [s ! i, s ! (i + 1)]" using d1 d2 by simp
      have y: "s ! (i + 1) < 256" using "1.prems"(5) d by simp
      have inner: "Encode_inner t s ?bytes 0 (position, 0, result)
          = Inr (i + 2, push_bit 2 (s ! (i + 1) AND 15),
                 result @ [a ! drop_bit 2 (s ! i),
                           a ! (push_bit 4 (s ! i AND 3) + drop_bit 4 (s ! (i + 1)))])"
        unfolding b pos using wf i1 x y by (intro Encode_inner_2) simp_all
      have "Encode_loop t s i (position, result)
          = Encode_loop t s (i + 3) (i + 2,
              (result @ [a ! drop_bit 2 (s ! i),
                         a ! (push_bit 4 (s ! i AND 3) + drop_bit 4 (s ! (i + 1)))])
              @ [a ! push_bit 2 (s ! (i + 1) AND 15)])"
        using True inner sym [OF index_bounds(6)]
        by (simp add: Encode_loop.simps [of t s i] Let_def)
      also have "\<dots> = Inr (i + 2,
              (result @ [a ! drop_bit 2 (s ! i),
                         a ! (push_bit 4 (s ! i AND 3) + drop_bit 4 (s ! (i + 1)))])
              @ [a ! push_bit 2 (s ! (i + 1) AND 15)])"
        using two by (intro Encode_loop_stop) simp
      finally show ?thesis using d by simp
    next
      case more
      then have b: "?bytes = 3" by (simp add: GetEncodingBytes_def)
      have i2: "i + 2 < length s" "i + 1 < length s" using more by simp_all
      have d: "drop i s = s ! i # s ! (i + 1) # s ! (i + 2) # drop (i + 3) s"
        using i2 d1 Cons_nth_drop_Suc [of "i + 1" s] Cons_nth_drop_Suc [of "i + 2" s]
        by (simp add: numeral_3_eq_3 numeral_2_eq_2)
      have y: "s ! (i + 1) < 256" and z: "s ! (i + 2) < 256"
        and rest: "\<forall>x \<in> set (drop (i + 3) s). x < 256"
        using "1.prems"(5) d by simp_all
      let ?g = "[a ! drop_bit 2 (s ! i),
                 a ! (push_bit 4 (s ! i AND 3) + drop_bit 4 (s ! (i + 1))),
                 a ! (push_bit 2 (s ! (i + 1) AND 15) + drop_bit 6 (s ! (i + 2)))]"
      have inner: "Encode_inner t s ?bytes 0 (position, 0, result)
          = Inr (i + 3, s ! (i + 2) AND 63, result @ ?g)"
        unfolding b pos using wf i2 x y z by (intro Encode_inner_3) simp_all
      let ?st2 = "(i + 3, (result @ ?g) @ ToString (char_at (Alphabet t) (s ! (i + 2) AND 63)))"
      have step: "Encode_loop t s i (position, result) = Encode_loop t s (i + 3) ?st2"
        using True inner by (simp add: Encode_loop.simps [of t s i] Let_def)
      have "\<exists>p'. Encode_loop t s (i + 3) ?st2
          = Inr (p', snd ?st2 @ map (\<lambda>k. a ! k) (symbol_indices (drop (i + 3) s)))"
        using "1.IH" [OF True refl inner refl refl wf _ _ rest] more by simp
      then show ?thesis
        using step d sym [OF index_bounds(4), of "s ! (i + 2)"] by simp
    qed
  qed
qed

subsection \<open>One group of the decoder\<close>

lemmas decoding_tables = table_at_def DECODING_SHIFTS_def DECODING_MASKS_def DECODING_DIGITS_def

lemma DecodeToBytes_inner_stop:
  "\<not> j < bytes \<Longrightarrow> DecodeToBytes_inner t s ip bytes j st = Completed st"
  by (cases st) (simp add: DecodeToBytes_inner.simps [of t s ip bytes j])

lemma DecodeToBytes_inner_step0:
  "0 < bytes \<Longrightarrow> p < length s \<Longrightarrow> BaseMapLookup t (Number (s ! p)) = Some k \<Longrightarrow>
   DecodeToBytes_inner t s ip bytes 0 (index, p, c, xs) =
     DecodeToBytes_inner t s ip bytes 1 (index, p + 1, c + push_bit 2 k, xs)"
  by (simp add: DecodeToBytes_inner.simps [of t s ip bytes 0] StringCharCodeAt_def Let_def
      decoding_tables)

lemma DecodeToBytes_inner_step1:
  "1 < bytes \<Longrightarrow> p < length s \<Longrightarrow> BaseMapLookup t (Number (s ! p)) = Some k \<Longrightarrow>
   DecodeToBytes_inner t s ip bytes 1 (index, p, c, xs) =
     DecodeToBytes_inner t s ip bytes 2
       (index + 1, p + 1, push_bit 4 (k AND 15), xs[index := of_nat (c + drop_bit 4 k)])"
  by (simp add: DecodeToBytes_inner.simps [of t s ip bytes "Suc 0"] StringCharCodeAt_def Let_def
      decoding_tables numeral_2_eq_2)

lemma DecodeToBytes_inner_step2:
  "2 < bytes \<Longrightarrow> p < length s \<Longrightarrow> BaseMapLookup t (Number (s ! p)) = Some k \<Longrightarrow>
   DecodeToBytes_inner t s ip bytes 2 (index, p, c, xs) =
     DecodeToBytes_inner t s ip bytes 3
       (index + 1, p + 1, push_bit 6 (k AND 3), xs[index := of_nat (c + drop_bit 2 k)])"
  by (simp add: DecodeToBytes_inner.simps [of t s ip bytes 2] StringCharCodeAt_def Let_def
      decoding_tables)

lemma DecodeToBytes_inner_step3:
  "3 < bytes \<Longrightarrow> p < length s \<Longrightarrow> BaseMapLookup t (Number (s ! p)) = Some k \<Longrightarrow>
   DecodeToBytes_inner t s ip bytes 3 (index, p, c, xs) =
     DecodeToBytes_inner t s ip bytes 4 (index, p + 1, c + k, xs)"
  by (simp add: DecodeToBytes_inner.simps [of t s ip bytes 3] StringCharCodeAt_def Let_def
      decoding_tables)

lemma DecodeToBytes_inner_padding:
  "j < bytes \<Longrightarrow> p < length s \<Longrightarrow> BaseMapLookup t (Number (s ! p)) = None \<Longrightarrow>
   s ! p = paddingCharCode_or_0 t \<Longrightarrow>
   DecodeToBytes_inner t s False bytes j (index, p, c, xs) = ThrowPADDING (index, p + 1, c, xs)"
  by (simp add: DecodeToBytes_inner.simps [of t s False bytes j] StringCharCodeAt_def Let_def)

lemma DecodeToBytes_inner_4:
  assumes "p + 4 \<le> length s"
    and "BaseMapLookup t (Number (s ! p)) = Some k0"
    and "BaseMapLookup t (Number (s ! (p + 1))) = Some k1"
    and "BaseMapLookup t (Number (s ! (p + 2))) = Some k2"
    and "BaseMapLookup t (Number (s ! (p + 3))) = Some k3"
  shows "DecodeToBytes_inner t s ip 4 0 (index, p, 0, xs) =
     Completed (index + 2, p + 4, push_bit 6 (k2 AND 3) + k3,
       xs[index := of_nat (push_bit 2 k0 + drop_bit 4 k1),
          index + 1 := of_nat (push_bit 4 (k1 AND 15) + drop_bit 2 k2)])"
proof -
  have "DecodeToBytes_inner t s ip 4 0 (index, p, 0, xs)
      = DecodeToBytes_inner t s ip 4 1 (index, p + 1, 0 + push_bit 2 k0, xs)"
    using assms by (intro DecodeToBytes_inner_step0) simp_all
  also have "\<dots> = DecodeToBytes_inner t s ip 4 2 (index + 1, p + 1 + 1, push_bit 4 (k1 AND 15),
      xs[index := of_nat (0 + push_bit 2 k0 + drop_bit 4 k1)])"
    using assms by (intro DecodeToBytes_inner_step1) simp_all
  also have "\<dots> = DecodeToBytes_inner t s ip 4 3 (index + 1 + 1, p + 1 + 1 + 1, push_bit 6 (k2 AND 3),
      xs[index := of_nat (0 + push_bit 2 k0 + drop_bit 4 k1),
         index + 1 := of_nat (push_bit 4 (k1 AND 15) + drop_bit 2 k2)])"
    using assms by (intro DecodeToBytes_inner_step2) (simp_all add: add.assoc)
  also have "\<dots> = DecodeToBytes_inner t s ip 4 4 (index + 1 + 1, p + 1 + 1 + 1 + 1,
      push_bit 6 (k2 AND 3) + k3,
      xs[index := of_nat (0 + push_bit 2 k0 + drop_bit 4 k1),
         index + 1 := of_nat (push_bit 4 (k1 AND 15) + drop_bit 2 k2)])"
    using assms by (intro DecodeToBytes_inner_step3) (simp_all add: add.assoc numeral_3_eq_3)
  also have "\<dots> = Completed (index + 1 + 1, p + 1 + 1 + 1 + 1,
      push_bit 6 (k2 AND 3) + k3,
      xs[index := of_nat (0 + push_bit 2 k0 + drop_bit 4 k1),
         index + 1 := of_nat (push_bit 4 (k1 AND 15) + drop_bit 2 k2)])"
    by (rule DecodeToBytes_inner_stop) simp
  finally show ?thesis by (simp add: add.assoc)
qed

lemma DecodeToBytes_inner_3_padding:
  assumes "p + 4 \<le> length s"
    and "BaseMapLookup t (Number (s ! p)) = Some k0"
    and "BaseMapLookup t (Number (s ! (p + 1))) = Some k1"
    and "BaseMapLookup t (Number (s ! (p + 2))) = Some k2"
    and "BaseMapLookup t (Number (s ! (p + 3))) = None"
    and "s ! (p + 3) = paddingCharCode_or_0 t"
  shows "DecodeToBytes_inner t s False 4 0 (index, p, 0, xs) =
     ThrowPADDING (index + 2, p + 4, push_bit 6 (k2 AND 3),
       xs[index := of_nat (push_bit 2 k0 + drop_bit 4 k1),
          index + 1 := of_nat (push_bit 4 (k1 AND 15) + drop_bit 2 k2)])"
proof -
  have "DecodeToBytes_inner t s False 4 0 (index, p, 0, xs)
      = DecodeToBytes_inner t s False 4 1 (index, p + 1, 0 + push_bit 2 k0, xs)"
    using assms by (intro DecodeToBytes_inner_step0) simp_all
  also have "\<dots> = DecodeToBytes_inner t s False 4 2 (index + 1, p + 1 + 1, push_bit 4 (k1 AND 15),
      xs[index := of_nat (0 + push_bit 2 k0 + drop_bit 4 k1)])"
    using assms by (intro DecodeToBytes_inner_step1) simp_all
  also have "\<dots> = DecodeToBytes_inner t s False 4 3 (index + 1 + 1, p + 1 + 1 + 1, push_bit 6 (k2 AND 3),
      xs[index := of_nat (0 + push_bit 2 k0 + drop_bit 4 k1),
         index + 1 := of_nat (push_bit 4 (k1 AND 15) + drop_bit 2 k2)])"
    using assms by (intro DecodeToBytes_inner_step2) (simp_all add: add.assoc)
  also have "\<dots> = ThrowPADDING (index + 1 + 1, p + 1 + 1 + 1 + 1, push_bit 6 (k2 AND 3),
      xs[index := of_nat (0 + push_bit 2 k0 + drop_bit 4 k1),
         index + 1 := of_nat (push_bit 4 (k1 AND 15) + drop_bit 2 k2)])"
    using assms by (intro DecodeToBytes_inner_padding) (simp_all add: add.assoc numeral_3_eq_3)
  finally show ?thesis by (simp add: add.assoc)
qed

lemma DecodeToBytes_inner_2_padding:
  assumes "p + 3 \<le> length s"
    and "BaseMapLookup t (Number (s ! p)) = Some k0"
    and "BaseMapLookup t (Number (s ! (p + 1))) = Some k1"
    and "BaseMapLookup t (Number (s ! (p + 2))) = None"
    and "s ! (p + 2) = paddingCharCode_or_0 t"
  shows "DecodeToBytes_inner t s False 4 0 (index, p, 0, xs) =
     ThrowPADDING (index + 1, p + 3, push_bit 4 (k1 AND 15),
       xs[index := of_nat (push_bit 2 k0 + drop_bit 4 k1)])"
proof -
  have "DecodeToBytes_inner t s False 4 0 (index, p, 0, xs)
      = DecodeToBytes_inner t s False 4 1 (index, p + 1, 0 + push_bit 2 k0, xs)"
    using assms by (intro DecodeToBytes_inner_step0) simp_all
  also have "\<dots> = DecodeToBytes_inner t s False 4 2 (index + 1, p + 1 + 1, push_bit 4 (k1 AND 15),
      xs[index := of_nat (0 + push_bit 2 k0 + drop_bit 4 k1)])"
    using assms by (intro DecodeToBytes_inner_step1) simp_all
  also have "\<dots> = ThrowPADDING (index + 1, p + 1 + 1 + 1, push_bit 4 (k1 AND 15),
      xs[index := of_nat (0 + push_bit 2 k0 + drop_bit 4 k1)])"
    using assms by (intro DecodeToBytes_inner_padding) (simp_all add: add.assoc)
  finally show ?thesis by (simp add: add.assoc)
qed

subsection \<open>The decoder on the output of the encoder\<close>

lemma DecodeToBytes_loop_stop:
  "\<not> i < length s \<Longrightarrow> DecodeToBytes_loop t s ip ac i st = Inr st"
  by (cases st) (simp add: DecodeToBytes_loop.simps [of t s ip ac i])

lemma DecodeToBytes_loop_4:
  assumes "i + 4 \<le> length s"
    and "BaseMapLookup t (Number (s ! i)) = Some k0"
    and "BaseMapLookup t (Number (s ! (i + 1))) = Some k1"
    and "BaseMapLookup t (Number (s ! (i + 2))) = Some k2"
    and "BaseMapLookup t (Number (s ! (i + 3))) = Some k3"
  shows "DecodeToBytes_loop t s ip ac i (index, i, xs) =
     DecodeToBytes_loop t s ip ac (i + 4)
       (index + 3, i + 4,
        xs[index := of_nat (push_bit 2 k0 + drop_bit 4 k1),
           index + 1 := of_nat (push_bit 4 (k1 AND 15) + drop_bit 2 k2),
           index + 2 := of_nat (push_bit 6 (k2 AND 3) + k3)])"
proof -
  have bytes: "GetDecodingBytes (length s) i = 4"
    using assms(1) by (simp add: GetDecodingBytes_def Let_def)
  have i: "i < length s" using assms(1) by simp
  have e: "index + 2 + 1 = index + 3" by simp
  show ?thesis
    by (subst DecodeToBytes_loop.simps)
      (simp only: i bytes Let_def DecodeToBytes_inner_4 [OF assms] outcome.case prod.case if_True e)
qed

lemma DecodeToBytes_loop_3_padding:
  assumes "i + 4 \<le> length s"
    and "BaseMapLookup t (Number (s ! i)) = Some k0"
    and "BaseMapLookup t (Number (s ! (i + 1))) = Some k1"
    and "BaseMapLookup t (Number (s ! (i + 2))) = Some k2"
    and "BaseMapLookup t (Number (s ! (i + 3))) = None"
    and "s ! (i + 3) = paddingCharCode_or_0 t"
  shows "DecodeToBytes_loop t s False False i (index, i, xs) =
     Inr (index + 2, i + 4,
        xs[index := of_nat (push_bit 2 k0 + drop_bit 4 k1),
           index + 1 := of_nat (push_bit 4 (k1 AND 15) + drop_bit 2 k2)])"
proof -
  have bytes: "GetDecodingBytes (length s) i = 4"
    using assms(1) by (simp add: GetDecodingBytes_def Let_def)
  have i: "i < length s" using assms(1) by simp
  show ?thesis
    by (subst DecodeToBytes_loop.simps)
      (simp only: i bytes Let_def DecodeToBytes_inner_3_padding [OF assms] outcome.case prod.case
        if_True if_False)
qed

lemma DecodeToBytes_loop_2_padding:
  assumes "i + 4 \<le> length s"
    and "BaseMapLookup t (Number (s ! i)) = Some k0"
    and "BaseMapLookup t (Number (s ! (i + 1))) = Some k1"
    and "BaseMapLookup t (Number (s ! (i + 2))) = None"
    and "s ! (i + 2) = paddingCharCode_or_0 t"
  shows "DecodeToBytes_loop t s False False i (index, i, xs) =
     Inr (index + 1, i + 3, xs[index := of_nat (push_bit 2 k0 + drop_bit 4 k1)])"
proof -
  have bytes: "GetDecodingBytes (length s) i = 4"
    using assms(1) by (simp add: GetDecodingBytes_def Let_def)
  have le: "i + 3 \<le> length s" and i: "i < length s" using assms(1) by simp_all
  show ?thesis
    by (subst DecodeToBytes_loop.simps)
      (simp only: i bytes Let_def DecodeToBytes_inner_2_padding [OF le assms(2-)] outcome.case
        prod.case if_True if_False)
qed

text \<open>The padded encoding of a byte sequence: its symbols, then padding up to a multiple
  of 4.\<close>

definition padded :: "code_unit list \<Rightarrow> code_unit \<Rightarrow> nat list \<Rightarrow> jsstring" where
  "padded a P B =
     map (\<lambda>k. a ! k) (symbol_indices B)
       @ replicate ((4 - length (symbol_indices B) mod 4) mod 4) P"

lemma padded_simps:
  "padded a P [] = []"
  "padded a P [x] = [a ! drop_bit 2 x, a ! push_bit 4 (x AND 3), P, P]"
  "padded a P [x, y] =
     [a ! drop_bit 2 x, a ! (push_bit 4 (x AND 3) + drop_bit 4 y), a ! push_bit 2 (y AND 15), P]"
  "padded a P (x # y # z # rest) =
     [a ! drop_bit 2 x, a ! (push_bit 4 (x AND 3) + drop_bit 4 y),
      a ! (push_bit 2 (y AND 15) + drop_bit 6 z), a ! (z AND 63)] @ padded a P rest"
  by (simp_all add: padded_def replicate_run numeral_2_eq_2)

lemma DecodeToBytes_loop_padded:
  assumes look: "\<And>k. k < 64 \<Longrightarrow> BaseMapLookup t (Number (a ! k)) = Some k"
    and pad: "BaseMapLookup t (Number P) = None" "paddingCharCode_or_0 t = P"
  shows "(\<forall>x \<in> set B. x < 256) \<Longrightarrow> index + length B \<le> length xs \<Longrightarrow>
     \<exists>p' xs'. DecodeToBytes_loop t (pre @ padded a P B) False False (length pre) (index, length pre, xs)
         = Inr (index + length B, p', xs')
       \<and> length xs' = length xs
       \<and> take (index + length B) xs' = take index xs @ map of_nat B"
proof (induction B arbitrary: pre index xs rule: symbol_indices.induct)
  case 1
  show ?case by (simp add: padded_simps DecodeToBytes_loop_stop)
next
  case (2 x)
  let ?s = "pre @ padded a P [x]"
  have x: "x < 256" using "2.prems"(1) by simp
  have len: "length pre + 4 \<le> length ?s" by (simp add: padded_simps)
  have l0: "BaseMapLookup t (Number (?s ! length pre)) = Some (drop_bit 2 x)"
    using look [OF index_bounds(1) [OF x]] by (simp add: padded_simps)
  have l1: "BaseMapLookup t (Number (?s ! (length pre + 1))) = Some (push_bit 4 (x AND 3))"
    using look [OF index_bounds(5) [of x]] by (simp add: padded_simps nth_append)
  have l2: "BaseMapLookup t (Number (?s ! (length pre + 2))) = None"
    using pad(1) by (simp add: padded_simps nth_append)
  have l3: "?s ! (length pre + 2) = paddingCharCode_or_0 t"
    using pad(2) by (simp add: padded_simps nth_append)
  have v: "push_bit 2 (drop_bit 2 x) + drop_bit 4 (push_bit 4 (x AND 3)) = x"
    using bits_first [OF x, of 0] by simp
  have run: "DecodeToBytes_loop t ?s False False (length pre) (index, length pre, xs)
      = Inr (index + 1, length pre + 3, xs[index := of_nat x])"
    using DecodeToBytes_loop_2_padding [OF len l0 l1 l2 l3, of index xs] by (simp only: v)
  have "take (index + 1) (xs[index := of_nat x]) = take index xs @ [of_nat x]"
    using "2.prems"(2) by (simp add: take_Suc_conv_app_nth)
  then show ?case using run by simp
next
  case (3 x y)
  let ?s = "pre @ padded a P [x, y]"
  have x: "x < 256" and y: "y < 256" using "3.prems"(1) by simp_all
  have len: "length pre + 4 \<le> length ?s" by (simp add: padded_simps)
  have l0: "BaseMapLookup t (Number (?s ! length pre)) = Some (drop_bit 2 x)"
    using look [OF index_bounds(1) [OF x]] by (simp add: padded_simps)
  have l1: "BaseMapLookup t (Number (?s ! (length pre + 1)))
      = Some (push_bit 4 (x AND 3) + drop_bit 4 y)"
    using look [OF index_bounds(2) [OF y, of x]] by (simp add: padded_simps nth_append)
  have l2: "BaseMapLookup t (Number (?s ! (length pre + 2))) = Some (push_bit 2 (y AND 15))"
    using look [OF index_bounds(6) [of y]] by (simp add: padded_simps nth_append)
  have l3: "BaseMapLookup t (Number (?s ! (length pre + 3))) = None"
    using pad(1) by (simp add: padded_simps nth_append)
  have l4: "?s ! (length pre + 3) = paddingCharCode_or_0 t"
    using pad(2) by (simp add: padded_simps nth_append)
  have v0: "push_bit 2 (drop_bit 2 x) + drop_bit 4 (push_bit 4 (x AND 3) + drop_bit 4 y) = x"
    by (rule bits_first [OF x y])
  have v1: "push_bit 4 ((push_bit 4 (x AND 3) + drop_bit 4 y) AND 15)
      + drop_bit 2 (push_bit 2 (y AND 15)) = y"
    using bits_second [OF x y, of 0] by simp
  have run: "DecodeToBytes_loop t ?s False False (length pre) (index, length pre, xs)
      = Inr (index + 2, length pre + 4, xs[index := of_nat x, index + 1 := of_nat y])"
    using DecodeToBytes_loop_3_padding [OF len l0 l1 l2 l3 l4, of index xs] by (simp only: v0 v1)
  have "take (index + 2) (xs[index := of_nat x, index + 1 := of_nat y])
      = take index xs @ [of_nat x, of_nat y]"
    using "3.prems"(2) by (simp add: take_Suc_conv_app_nth numeral_2_eq_2)
  then show ?case using run by simp
next
  case (4 x y z rest)
  let ?s = "pre @ padded a P (x # y # z # rest)"
  let ?pre = "pre @ [a ! drop_bit 2 x, a ! (push_bit 4 (x AND 3) + drop_bit 4 y),
      a ! (push_bit 2 (y AND 15) + drop_bit 6 z), a ! (z AND 63)]"
  have s: "?s = ?pre @ padded a P rest" by (simp add: padded_simps)
  have x: "x < 256" and y: "y < 256" and z: "z < 256" and rest: "\<forall>x \<in> set rest. x < 256"
    using "4.prems"(1) by simp_all
  have len: "length pre + 4 \<le> length ?s" by (simp add: padded_simps)
  have l0: "BaseMapLookup t (Number (?s ! length pre)) = Some (drop_bit 2 x)"
    using look [OF index_bounds(1) [OF x]] by (simp add: padded_simps)
  have l1: "BaseMapLookup t (Number (?s ! (length pre + 1)))
      = Some (push_bit 4 (x AND 3) + drop_bit 4 y)"
    using look [OF index_bounds(2) [OF y, of x]] by (simp add: padded_simps nth_append)
  have l2: "BaseMapLookup t (Number (?s ! (length pre + 2)))
      = Some (push_bit 2 (y AND 15) + drop_bit 6 z)"
    using look [OF index_bounds(3) [OF z, of y]] by (simp add: padded_simps nth_append)
  have l3: "BaseMapLookup t (Number (?s ! (length pre + 3))) = Some (z AND 63)"
    using look [OF index_bounds(4) [of z]] by (simp add: padded_simps nth_append)
  let ?xs = "xs[index := of_nat x, index + 1 := of_nat y, index + 2 := of_nat z]"
  have step: "DecodeToBytes_loop t ?s False False (length pre) (index, length pre, xs)
      = DecodeToBytes_loop t ?s False False (length pre + 4) (index + 3, length pre + 4, ?xs)"
    using DecodeToBytes_loop_4 [OF len l0 l1 l2 l3, of False False index xs]
    by (simp only: bits_first [OF x y] bits_second [OF x y z] bits_third [OF y z])
  have room: "index + 3 + length rest \<le> length ?xs" using "4.prems"(2) by simp
  from "4.IH" [OF rest room, of ?pre] obtain p' xs' where
    IH: "DecodeToBytes_loop t (?pre @ padded a P rest) False False (length ?pre)
           (index + 3, length ?pre, ?xs) = Inr (index + 3 + length rest, p', xs')"
      "length xs' = length ?xs"
      "take (index + 3 + length rest) xs' = take (index + 3) ?xs @ map of_nat rest"
    by blast
  have lp: "length ?pre = length pre + 4" by simp
  have t3: "take (index + 3) ?xs = take index xs @ [of_nat x, of_nat y, of_nat z]"
    using "4.prems"(2) by (simp add: take_Suc_conv_app_nth numeral_3_eq_3)
  have run: "DecodeToBytes_loop t ?s False False (length pre) (index, length pre, xs)
      = Inr (index + 3 + length rest, p', xs')"
    using step IH(1) unfolding s lp by simp
  have n: "index + length (x # y # z # rest) = index + 3 + length rest" by simp
  have "take (index + 3 + length rest) xs' = take index xs @ map of_nat (x # y # z # rest)"
    using IH(3) unfolding t3 by simp
  moreover have "length xs' = length xs" using IH(2) by simp
  ultimately show ?case using run unfolding n by blast
qed


lemma length_padded: "length (padded a P B) = 4 * ((length B + 2) div 3)"
proof (induction B rule: symbol_indices.induct)
  case (4 x y z rest)
  have "(length (x # y # z # rest) + 2) div 3 = Suc ((length rest + 2) div 3)" by simp
  then show ?case using 4 by (simp only: padded_simps length_append) simp
qed (simp_all add: padded_simps)

lemma unat_byte_less: "\<forall>x \<in> set (map unat (b :: byte list)). x < 256"
proof -
  have "unat x < 256" for x :: byte using unsigned_less [of x] by simp
  then show ?thesis by simp
qed

lemma paddingCharCode_or_0_eq:
  assumes "Base64Encoding a options = Inr t"
  shows "paddingCharCode_or_0 t = (if Padding t = [] then 0 else hd (Padding t))"
  using Base64Encoding_Inr(12) [OF assms]
  by (cases "Padding t") (simp_all add: paddingCharCode_or_0_def)

lemma EncodeBytesToString_padded:
  assumes "Base64Encoding a options = Inr t" and "length a = 64"
  shows "EncodeBytesToString t b True = padded a (paddingCharCode_or_0 t) (map unat b)"
proof -
  let ?s = "map unat b"
  note B = Base64Encoding_Inr [OF assms(1)]
  have bytes: "\<forall>x \<in> set (drop 0 ?s). x < 256"
    using unat_byte_less [of b] by simp
  have unpadded: "Encode t ?s False = Inr (map (\<lambda>k. a ! k) (symbol_indices ?s))"
  proof (cases "b = []")
    case True
    then show ?thesis by (simp add: Encode_def)
  next
    case False
    from Encode_loop_content [OF B(1) assms(2), of "(0, [])" 0 ?s, OF _ _ bytes]
    obtain p' where "Encode_loop t ?s 0 (0, []) = Inr (p', map (\<lambda>k. a ! k) (symbol_indices ?s))"
      by auto
    then show ?thesis using False by (simp add: Encode_def)
  qed
  have "Encode t ?s True = Inr (padded a (paddingCharCode_or_0 t) ?s)"
    by (simp add: Encode_padded_eq [OF B(10)] unpadded padded_def pad_count
        paddingCharCode_or_0_eq [OF assms(1)])
  then show ?thesis by (simp add: Encode_of_bytes)
qed

text \<open>With padding on the encoding side and padding not ignored on the decoding side, the
  byte-to-string encoder and the byte decoder of one instance are inverse to each other.\<close>

lemma DecodeToBytes_EncodeBytesToString:
  assumes "Base64Encoding a options = Inr t" and "length a = 64"
  shows "DecodeToBytes t (EncodeBytesToString t b True) False False = Inr b"
proof (cases "b = []")
  case True
  then show ?thesis by (simp add: EncodeBytesToString_def DecodeToBytes_def)
next
  case False
  note B = Base64Encoding_Inr [OF assms(1)]
  note W = Base64Encoding_64 [OF assms]
  let ?P = "paddingCharCode_or_0 t"
  let ?B = "map unat b"
  let ?s = "padded a ?P ?B"
  let ?cap = "GetInverseCapacity (length ?s)"
  have enc: "EncodeBytesToString t b True = ?s" by (rule EncodeBytesToString_padded [OF assms])
  have look: "BaseMapLookup t (Number (a ! k)) = Some k" if "k < 64" for k
    using that W(1) assms(2) by (simp add: W(3) index_of_nth)
  have "?P \<notin> set a"
  proof (cases "Padding t")
    case Nil
    then show ?thesis using W(6) [of 0] by (auto simp: paddingCharCode_or_0_eq [OF assms(1)])
  next
    case (Cons c cs)
    then show ?thesis using W(7) by (auto simp: paddingCharCode_or_0_eq [OF assms(1)])
  qed
  then have pad: "BaseMapLookup t (Number ?P) = None" by (simp add: W(3) index_of_None)
  have bytes: "\<forall>x \<in> set ?B. x < 256"
    by (rule unat_byte_less)
  have cap: "?cap = 3 * ((length b + 2) div 3)"
    by (simp add: GetInverseCapacity_def length_padded)
  have room: "0 + length ?B \<le> length (replicate ?cap (0::byte))"
    unfolding cap by simp
  from DecodeToBytes_loop_padded [of t a ?P ?B 0 "replicate ?cap 0" "[]", OF look pad refl bytes room]
  obtain p' xs' where
    run: "DecodeToBytes_loop t ?s False False 0 (0, 0, replicate ?cap 0) = Inr (length b, p', xs')"
    and len: "length xs' = ?cap"
    and content: "take (length b) xs' = map of_nat ?B"
    by auto
  have b: "map of_nat ?B = b" by (simp add: map_idI)
  have "0 < length b" using False by simp
  then have "0 < (length b + 2) div 3" by presburger
  then have nonempty: "length ?s \<noteq> 0" by (simp add: length_padded)
  have "DecodeToBytes t ?s False False = Inr (take (length b) xs')"
    using nonempty run len by (simp add: DecodeToBytes_def Let_def)
  then show ?thesis unfolding enc content b .
qed

end
